theory Spec2Isabelle
  imports Main
begin

section \<open>Data model of the LWMD streaming parser\<close>

text \<open>
  A JavaScript string is a sequence of UTF-16 code units; \<open>charCodeAt\<close> reads one of
  them as a non-negative integer. Strings are therefore lists of code units, and the
  character constants are those of \<open>LWMD_ENUM.CHAR\<close>.
\<close>

type_synonym jsstring = "nat list"

abbreviation SPACE :: nat where "SPACE \<equiv> 32"
abbreviation NEWLINE :: nat where "NEWLINE \<equiv> 10"
abbreviation BACKSLASH :: nat where "BACKSLASH \<equiv> 92"
abbreviation ASTERISK :: nat where "ASTERISK \<equiv> 42"
abbreviation UNDERSCORE :: nat where "UNDERSCORE \<equiv> 95"
abbreviation TILDE :: nat where "TILDE \<equiv> 126"
abbreviation HASH :: nat where "HASH \<equiv> 35"
abbreviation DASH :: nat where "DASH \<equiv> 45"
abbreviation BACKTICK :: nat where "BACKTICK \<equiv> 96"
abbreviation GREATER_THAN :: nat where "GREATER_THAN \<equiv> 62"
abbreviation PIPE :: nat where "PIPE \<equiv> 124"

text \<open>\<open>LWMD_ENUM.STATE\<close>.\<close>

datatype pstate = NORMAL | SEQUENCE_HEADING | SEQUENCE_HR | SEQUENCE_MODIFIER | CODE | CODE_BLOCK

text \<open>
  The DOM elements the parser touches: the render target, the elements created by
  \<open>document.createElement("h" + n)\<close> and by \<open>document.createElement("hr")\<close>.
\<close>

datatype element = Target | Heading int | Hr

text \<open>
  The DOM is written only through \<open>this.top.append(...)\<close>, \<open>up\<close> and \<open>down\<close>. The
  effect on the output is kept as the ordered log of these calls, each with the element
  that was \<open>this.top\<close> when it was made:
  \<open>AppendText\<close> is \<open>top.append(string)\<close>, \<open>InsertVoid\<close> is \<open>top.append(createElement("hr"))\<close>,
  \<open>OpenBlock\<close> is \<open>up\<close> (append the wrapper to top and make it the new top) and
  \<open>CloseBlock\<close> is a \<open>down\<close> that pops the element stack.
\<close>

datatype command =
    AppendText element jsstring
  | InsertVoid element element
  | OpenBlock element element
  | CloseBlock

datatype error = TypeError

text \<open>
  An entry of \<open>state.modifierStack\<close> is the array \<open>[char, count]\<close>, to which the
  modifier case later assigns index 2 (a position).
\<close>

type_synonym modifier = "nat \<times> int \<times> int option"

text \<open>
  The instance fields, with the nested \<open>this.state\<close> object flattened. \<open>out\<close> is the log
  of output commands; \<open>top_elem\<close> is \<open>this.top\<close>; \<open>flush_on_write\<close> is
  \<open>options.flush_on_write\<close>. The field \<open>streamingMode\<close> is never read and is left out.
\<close>

record parser =
  position :: int
  start :: int
  uncorfinmed_start :: "int option"
  stack :: "element list"
  chunks :: "jsstring list"
  top_elem :: element
  target :: element
  locked :: bool
  state :: pstate
  line_start :: bool
  heading_count :: int
  hr_char :: "nat option"
  hr_count :: int
  modifierStack :: "modifier list"
  flush_on_write :: bool
  out :: "command list"

text \<open>\<open>null\<close> used as a number is 0 (\<open>null++\<close>, \<open>null + 2\<close>, \<open>slice(null, e)\<close>).\<close>

fun num :: "int option \<Rightarrow> int" where
  "num None = 0"
| "num (Some n) = n"

section \<open>Chunk store\<close>

text \<open>
  \<open>String.prototype.slice(a, b)\<close>: a negative index counts from the end, both indices are
  clamped to the string, and the result is empty when the span is.
\<close>

definition js_slice :: "'a list \<Rightarrow> int \<Rightarrow> int \<Rightarrow> 'a list" where
  "js_slice s a b =
     (let len = int (length s);
          from = (if a < 0 then max (len + a) 0 else min a len);
          to = (if b < 0 then max (len + b) 0 else min b len)
      in take (nat (to - from)) (drop (nat from) s))"

text \<open>The first loop of \<open>getSubstring\<close>: a chunk that is, or contains, the span.\<close>

fun getSubstring_fast :: "jsstring list \<Rightarrow> int \<Rightarrow> int \<Rightarrow> int \<Rightarrow> jsstring option" where
  "getSubstring_fast [] idx st en = None"
| "getSubstring_fast (chunk # rest) idx st en =
     (let len = int (length chunk) in
      if idx = st \<and> idx + len = en then Some chunk
      else if st \<ge> idx \<and> en \<le> idx + len
        then Some (js_slice chunk (st - idx) (en - idx))
      else getSubstring_fast rest (idx + len) st en)"

text \<open>The second loop: the slices of the chunks that overlap the span, concatenated.\<close>

fun getSubstring_general ::
  "jsstring list \<Rightarrow> int \<Rightarrow> int \<Rightarrow> int \<Rightarrow> jsstring \<Rightarrow> jsstring" where
  "getSubstring_general [] pos st en result = result"
| "getSubstring_general (chunk # rest) pos st en result =
     (if \<not> st < en then result
      else
        let len = int (length chunk);
            chunkStart = max 0 (st - pos);
            chunkEnd = min len (en - pos);
            result' = (if chunkStart < chunkEnd
                       then result @ js_slice chunk chunkStart chunkEnd else result);
            pos' = pos + len
        in if pos' \<ge> en then result'
           else getSubstring_general rest pos' st en result')"

definition getSubstring :: "jsstring list \<Rightarrow> int \<Rightarrow> int \<Rightarrow> jsstring" where
  "getSubstring cs st en =
     (case cs of
        [chunk] \<Rightarrow> js_slice chunk st en
      | _ \<Rightarrow> (case getSubstring_fast cs 0 st en of
                Some r \<Rightarrow> r
              | None \<Rightarrow> getSubstring_general cs 0 st en []))"

section \<open>Operations\<close>

definition clearState :: "parser \<Rightarrow> parser" where
  "clearState s =
     s\<lparr>position := 0, start := 0, uncorfinmed_start := Some 0,
       stack := [target s], chunks := [], top_elem := target s,
       locked := False, state := NORMAL, line_start := True, heading_count := 0,
       hr_char := None, hr_count := 0, modifierStack := []\<rparr>"

text \<open>
  The constructor on a target with no initial text: empty \<open>stack\<close> and \<open>chunks\<close>, the
  options, then \<open>clearState\<close>. Nothing has been written to the target yet.
\<close>

definition new_LWMD :: "bool \<Rightarrow> parser" where
  "new_LWMD fow =
     clearState
       \<lparr>position = 0, start = 0, uncorfinmed_start = None, stack = [], chunks = [],
        top_elem = Target, target = Target, locked = False, state = NORMAL,
        line_start = True, heading_count = 0, hr_char = None, hr_count = 0,
        modifierStack = [], flush_on_write = fow, out = []\<rparr>"

text \<open>
  \<open>flush(start, end)\<close>: the reported boolean and the instance afterwards. The confirmed
  cursor is set to \<open>this.position\<close>.
\<close>

definition flush :: "int \<Rightarrow> int \<Rightarrow> parser \<Rightarrow> bool \<times> parser" where
  "flush st en s =
     (if locked s then (False, s)
      else
        let string = getSubstring (chunks s) st en in
        if length string = 0 then (False, s)
        else (True, s\<lparr>out := out s @ [AppendText (top_elem s) string],
                       start := position s, uncorfinmed_start := None\<rparr>))"

text \<open>\<open>this.flush()\<close> with both defaults, result ignored.\<close>

definition flush_default :: "parser \<Rightarrow> parser" where
  "flush_default s = snd (flush (start s) (position s) s)"

definition isModifierChar :: "nat \<Rightarrow> bool" where
  "isModifierChar char \<longleftrightarrow> char = ASTERISK \<or> char = UNDERSCORE \<or> char = TILDE"

definition up :: "element \<Rightarrow> parser \<Rightarrow> parser" where
  "up wrapper s =
     s\<lparr>out := out s @ [OpenBlock (top_elem s) wrapper],
       stack := stack s @ [wrapper], top_elem := wrapper\<rparr>"

definition down :: "parser \<Rightarrow> parser" where
  "down s =
     (if length (stack s) > 1
      then s\<lparr>stack := butlast (stack s), top_elem := last (butlast (stack s)),
             out := out s @ [CloseBlock]\<rparr>
      else s)"

subsection \<open>The cases of the state switch in \<open>write\<close>\<close>

definition case_NORMAL :: "nat \<Rightarrow> parser \<Rightarrow> parser" where
  "case_NORMAL char s =
     (if line_start s then
        (if char = HASH then
           (let s1 = flush_default s in
            s1\<lparr>locked := True, state := SEQUENCE_HEADING, heading_count := 1,
               uncorfinmed_start := Some (position s1)\<rparr>)
         else if char = UNDERSCORE \<or> char = ASTERISK \<or> char = DASH then
           (let s1 = flush_default s in
            s1\<lparr>locked := True, state := SEQUENCE_HR, hr_char := Some char, hr_count := 1,
               uncorfinmed_start := Some (position s1)\<rparr>)
         else s)
      else if isModifierChar char then
        (let s1 = flush_default s in
         s1\<lparr>state := SEQUENCE_MODIFIER,
            modifierStack := modifierStack s1 @ [(char, 1, None)],
            uncorfinmed_start := Some (position s1 + 1)\<rparr>)
      else if char = BACKTICK then
        (let s1 = flush_default s in
         s1\<lparr>state := CODE, uncorfinmed_start := Some (position s1 + 1)\<rparr>)
      else s)"

definition case_SEQUENCE_HR :: "nat \<Rightarrow> parser \<Rightarrow> parser" where
  "case_SEQUENCE_HR char s =
     (if Some char = hr_char s \<or> char = SPACE then s\<lparr>hr_count := hr_count s + 1\<rparr>
      else
        let s1 = s\<lparr>state := NORMAL, locked := False\<rparr>;
            s2 = (if hr_count s1 > 2 \<and> char = NEWLINE
                  then s1\<lparr>out := out s1 @ [InsertVoid (top_elem s1) Hr],
                          start := position s1\<rparr>
                  else (case hr_char s1 of
                          None \<Rightarrow> s1
                        | Some h \<Rightarrow>
                            if isModifierChar h then
                              (let s3 = flush_default s1 in
                               s3\<lparr>state := SEQUENCE_MODIFIER,
                                  modifierStack := modifierStack s3 @ [(h, hr_count s3, None)],
                                  uncorfinmed_start := Some (position s3 + 1)\<rparr>)
                            else s1))
        in s2\<lparr>hr_char := None, hr_count := 0\<rparr>)"

definition case_SEQUENCE_HEADING :: "nat \<Rightarrow> parser \<Rightarrow> parser" where
  "case_SEQUENCE_HEADING char s =
     (if char = HASH
      then s\<lparr>heading_count := heading_count s + 1,
             uncorfinmed_start := Some (num (uncorfinmed_start s) + 1)\<rparr>
      else
        let s1 = s\<lparr>state := NORMAL, locked := False\<rparr>;
            s2 = (if char = SPACE \<or> char = NEWLINE then
                    (let s3 = s1\<lparr>uncorfinmed_start := Some (num (uncorfinmed_start s1) + 2)\<rparr>;
                         s4 = up (Heading (min 6 (heading_count s3))) s3
                     in s4\<lparr>start := num (uncorfinmed_start s4)\<rparr>)
                  else s1\<lparr>heading_count := 0\<rparr>)
        in s2\<lparr>uncorfinmed_start := None\<rparr>)"

text \<open>
  The condition of the innermost \<open>if\<close> of the modifier case (``We have a match''), whose
  body is empty, for the arriving character and the modifier stack before it. \<open>last\<close> is
  the entry that was on top when the character arrived; the run-extending branch increments
  that same array, so \<open>last[1]\<close> is read after the increment, and after a push \<open>last\<close> is
  the entry below the new one.
\<close>

definition modifier_match :: "nat \<Rightarrow> modifier list \<Rightarrow> bool" where
  "modifier_match char ms \<longleftrightarrow>
     (let lst = last ms;
          extend = (fst (snd lst) = 1 \<and> char = fst lst);
          ms' = (if extend then butlast ms @ [(fst lst, fst (snd lst) + 1, snd (snd lst))]
                 else ms @ [(char, 1, None)]);
          lst' = (if extend then last ms' else lst)
      in length ms' > 1 \<and>
         (let prev = ms' ! (length ms' - 2) in fst prev = char \<and> fst (snd prev) = fst (snd lst')))"

text \<open>
  Reading \<open>last[1]\<close>, or assigning \<open>modifierStack[length - 1][2]\<close>, throws a TypeError
  when the modifier stack is empty. A match changes nothing.
\<close>

definition case_SEQUENCE_MODIFIER :: "nat \<Rightarrow> parser \<Rightarrow> error + parser" where
  "case_SEQUENCE_MODIFIER char s =
     (if isModifierChar char then
        (if modifierStack s = [] then Inl TypeError
         else
           let ms = modifierStack s;
               lst = last ms;
               s1 = s\<lparr>uncorfinmed_start := Some (num (uncorfinmed_start s) + 1)\<rparr>;
               s2 = (if fst (snd lst) = 1 \<and> char = fst lst
                     then s1\<lparr>modifierStack :=
                              butlast ms @ [(fst lst, fst (snd lst) + 1, snd (snd lst))]\<rparr>
                     else s1\<lparr>modifierStack := ms @ [(char, 1, None)]\<rparr>)
           in Inr s2)
      else
        (if modifierStack s = [] then Inl TypeError
         else
           let ms = modifierStack s; lst = last ms in
           Inr (s\<lparr>state := NORMAL, locked := False,
                  modifierStack := butlast ms @ [(fst lst, fst (snd lst), Some (position s))]\<rparr>)))"

text \<open>The switch: the inline-code and code-block states have no case.\<close>

definition switch_state :: "nat \<Rightarrow> parser \<Rightarrow> error + parser" where
  "switch_state char s =
     (case state s of
        NORMAL \<Rightarrow> Inr (case_NORMAL char s)
      | SEQUENCE_HR \<Rightarrow> Inr (case_SEQUENCE_HR char s)
      | SEQUENCE_HEADING \<Rightarrow> Inr (case_SEQUENCE_HEADING char s)
      | SEQUENCE_MODIFIER \<Rightarrow> case_SEQUENCE_MODIFIER char s
      | CODE \<Rightarrow> Inr s
      | CODE_BLOCK \<Rightarrow> Inr s)"

text \<open>What follows the switch in the loop body: line bookkeeping and \<open>position++\<close>.\<close>

definition after_switch :: "nat \<Rightarrow> parser \<Rightarrow> parser" where
  "after_switch char s =
     (let s1 = (if char = NEWLINE then
                  (let s2 = s\<lparr>line_start := True, modifierStack := []\<rparr> in
                   if heading_count s2 > 0
                   then (down (flush_default s2))\<lparr>heading_count := 0\<rparr>
                   else s2)
                else if line_start s then s\<lparr>line_start := False\<rparr>
                else s)
      in s1\<lparr>position := position s1 + 1\<rparr>)"

text \<open>One iteration of the loop of \<open>write\<close>.\<close>

definition process_char :: "nat \<Rightarrow> parser \<Rightarrow> error + parser" where
  "process_char char s =
     (case switch_state char s of
        Inl e \<Rightarrow> Inl e
      | Inr s' \<Rightarrow> Inr (after_switch char s'))"

text \<open>The loop over the code units of the chunk; an exception leaves the loop.\<close>

fun write_loop :: "jsstring \<Rightarrow> parser \<Rightarrow> error + parser" where
  "write_loop [] s = Inr s"
| "write_loop (char # rest) s =
     (case process_char char s of
        Inl e \<Rightarrow> Inl e
      | Inr s' \<Rightarrow> write_loop rest s')"

text \<open>
  \<open>write(chunk)\<close> for a string argument (\<open>write\<close> and \<open>end\<close> are Isabelle keywords, hence
  \<open>write_chunk\<close> and \<open>end_stream\<close>): push the chunk, run the loop, then flush when
  \<open>options.flush_on_write\<close> is set.
\<close>

definition write_chunk :: "jsstring \<Rightarrow> parser \<Rightarrow> error + parser" where
  "write_chunk chunk s =
     (case write_loop chunk (s\<lparr>chunks := chunks s @ [chunk]\<rparr>) of
        Inl e \<Rightarrow> Inl e
      | Inr s' \<Rightarrow> Inr (if flush_on_write s' then flush_default s' else s'))"

text \<open>
  \<open>end()\<close>. The first argument of the flush is \<open>this.uncorfinmed_start\<close>, which as
  \<open>null\<close> behaves as 0 in \<open>getSubstring\<close>.
\<close>

definition end_stream :: "parser \<Rightarrow> parser" where
  "end_stream s =
     clearState
       (if locked s
        then snd (flush (num (uncorfinmed_start s)) (position s) (s\<lparr>locked := False\<rparr>))
        else s)"

text \<open>A stream: the fragments written in order, then \<open>end()\<close>.\<close>

fun write_all :: "jsstring list \<Rightarrow> parser \<Rightarrow> error + parser" where
  "write_all [] s = Inr s"
| "write_all (chunk # rest) s =
     (case write_chunk chunk s of
        Inl e \<Rightarrow> Inl e
      | Inr s' \<Rightarrow> write_all rest s')"

definition stream :: "jsstring list \<Rightarrow> parser \<Rightarrow> error + parser" where
  "stream fragments s =
     (case write_all fragments s of
        Inl e \<Rightarrow> Inl e
      | Inr s' \<Rightarrow> Inr (end_stream s'))"

text \<open>\<open>reset(target)\<close> with a target given.\<close>

definition reset :: "element \<Rightarrow> parser \<Rightarrow> parser" where
  "reset t s = clearState (s\<lparr>target := t\<rparr>)"

text \<open>
  The methods a caller can invoke on an instance, and a sequence of such calls; an
  exception ends the sequence.
\<close>

datatype call = Write jsstring | Flush int int | Up element | Down | End | ClearState | Reset element

fun run_call :: "call \<Rightarrow> parser \<Rightarrow> error + parser" where
  "run_call (Write chunk) s = write_chunk chunk s"
| "run_call (Flush st en) s = Inr (snd (flush st en s))"
| "run_call (Up wrapper) s = Inr (up wrapper s)"
| "run_call Down s = Inr (down s)"
| "run_call End s = Inr (end_stream s)"
| "run_call ClearState s = Inr (clearState s)"
| "run_call (Reset t) s = Inr (reset t s)"

fun run_calls :: "call list \<Rightarrow> parser \<Rightarrow> error + parser" where
  "run_calls [] s = Inr s"
| "run_calls (c # cs) s = (case run_call c s of Inl e \<Rightarrow> Inl e | Inr s' \<Rightarrow> run_calls cs s')"

section \<open>Output commands between two states\<close>

text \<open>Text appends, and the commands that add an element (open a block, insert a rule).\<close>

fun is_text :: "command \<Rightarrow> bool" where
  "is_text (AppendText e t) = True"
| "is_text (InsertVoid e v) = False"
| "is_text (OpenBlock e w) = False"
| "is_text CloseBlock = False"

fun opens_element :: "command \<Rightarrow> bool" where
  "opens_element (AppendText e t) = False"
| "opens_element (InsertVoid e v) = True"
| "opens_element (OpenBlock e w) = True"
| "opens_element CloseBlock = False"

text \<open>The command that inserts a horizontal rule.\<close>

fun is_rule :: "command \<Rightarrow> bool" where
  "is_rule (AppendText e t) = False"
| "is_rule (InsertVoid e v) = (v = Hr)"
| "is_rule (OpenBlock e w) = False"
| "is_rule CloseBlock = False"

text \<open>
  \<open>emits P s s'\<close>: the output of \<open>s'\<close> is the output of \<open>s\<close> followed by commands that all
  satisfy \<open>P\<close>.
\<close>

definition emits :: "(command \<Rightarrow> bool) \<Rightarrow> parser \<Rightarrow> parser \<Rightarrow> bool" where
  "emits P s s' \<longleftrightarrow>
     take (length (out s)) (out s') = out s \<and> list_all P (drop (length (out s)) (out s'))"

text \<open>
  Inside a line, outside the heading recogniser, and with a run on the modifier stack
  whenever the modifier case is active.
\<close>

definition inline_inv :: "parser \<Rightarrow> bool" where
  "inline_inv s \<longleftrightarrow>
     \<not> line_start s \<and> state s \<noteq> SEQUENCE_HEADING \<and>
     (state s = SEQUENCE_MODIFIER \<longrightarrow> modifierStack s \<noteq> [])"

section \<open>Comparing a stream with its single-fragment run\<close>

text \<open>
  Merging of text: a text append that follows a text append to the same element is
  joined to it. \<open>merge_text\<close> reads a command log from the left, so two logs have the same
  image exactly when they differ only in where text appends were cut.
\<close>

fun merge_last :: "command \<Rightarrow> command \<Rightarrow> command list" where
  "merge_last (AppendText e' t') (AppendText e t) =
     (if e' = e then [AppendText e (t' @ t)] else [AppendText e' t', AppendText e t])"
| "merge_last p c = [p, c]"

definition emit :: "command list \<Rightarrow> command \<Rightarrow> command list" where
  "emit log c = (if log = [] then [c] else butlast log @ merge_last (last log) c)"

definition merge_text :: "command list \<Rightarrow> command list" where
  "merge_text cmds = foldl emit [] cmds"

text \<open>
  \<open>write\<close> without the push onto \<open>chunks\<close>: the loop, then the flush when
  \<open>flush_on_write\<close> is set. \<open>write chunk\<close> is \<open>feed chunk\<close> after the push.
\<close>

definition feed :: "jsstring \<Rightarrow> parser \<Rightarrow> error + parser" where
  "feed chunk s =
     (case write_loop chunk s of
        Inl e \<Rightarrow> Inl e
      | Inr s' \<Rightarrow> Inr (if flush_on_write s' then flush_default s' else s'))"

fun feed_all :: "jsstring list \<Rightarrow> parser \<Rightarrow> error + parser" where
  "feed_all [] s = Inr s"
| "feed_all (chunk # rest) s =
     (case feed chunk s of
        Inl e \<Rightarrow> Inl e
      | Inr s' \<Rightarrow> feed_all rest s')"

text \<open>The output once \<open>end()\<close> has been called, or the exception.\<close>

definition finish :: "error + parser \<Rightarrow> error + command list" where
  "finish r = map_sum id (\<lambda>s. out (end_stream s)) r"

text \<open>The cursors are never negative.\<close>

definition nonneg :: "parser \<Rightarrow> bool" where
  "nonneg s \<longleftrightarrow> 0 \<le> start s \<and> 0 \<le> position s \<and> 0 \<le> num (uncorfinmed_start s)"

text \<open>The lock is set whenever the heading or the rule recogniser is active.\<close>

definition lock_inv :: "parser \<Rightarrow> bool" where
  "lock_inv s \<longleftrightarrow> (state s = SEQUENCE_HEADING \<or> state s = SEQUENCE_HR \<longrightarrow> locked s)"

text \<open>A parser given another chunk list, and two chunk lists that read the same up to an offset.\<close>

definition rechunk :: "jsstring list \<Rightarrow> parser \<Rightarrow> parser" where
  "rechunk C s = s\<lparr>chunks := C\<rparr>"

definition same_reads :: "jsstring list \<Rightarrow> jsstring list \<Rightarrow> int \<Rightarrow> bool" where
  "same_reads C C' n \<longleftrightarrow> (\<forall>a. 0 \<le> a \<longrightarrow> getSubstring C' a n = getSubstring C a n)"

text \<open>
  Two parsers that agree on every field but \<open>start\<close>, \<open>uncorfinmed_start\<close> and \<open>out\<close>.
\<close>

definition core_eq :: "parser \<Rightarrow> parser \<Rightarrow> bool" where
  "core_eq r t \<longleftrightarrow>
     position t = position r \<and> stack t = stack r \<and> chunks t = chunks r \<and>
     top_elem t = top_elem r \<and> target t = target r \<and> locked t = locked r \<and>
     state t = state r \<and> line_start t = line_start r \<and>
     heading_count t = heading_count r \<and> hr_char t = hr_char r \<and>
     hr_count t = hr_count r \<and> modifierStack t = modifierStack r \<and>
     flush_on_write t = flush_on_write r"

text \<open>
  \<open>lag r t\<close>: parser \<open>t\<close> has consumed the same characters as \<open>r\<close> but may have flushed
  later: its confirmed cursor is at or ahead of \<open>r\<close>'s, and its output is that of \<open>r\<close>
  followed by the text between the two cursors, up to merging of text. \<open>sync\<close> is \<open>lag\<close>
  with equal cursors. \<open>settled\<close>: nothing is left for an end-of-write flush.
\<close>

definition pend :: "parser \<Rightarrow> int \<Rightarrow> command list" where
  "pend r st =
     (if start r < st
      then [AppendText (top_elem r) (js_slice (concat (chunks r)) (start r) st)]
      else [])"

definition lag :: "parser \<Rightarrow> parser \<Rightarrow> bool" where
  "lag r t \<longleftrightarrow>
     core_eq r t \<and> nonneg r \<and> lock_inv r \<and>
     (locked r \<longrightarrow> uncorfinmed_start t = uncorfinmed_start r) \<and>
     (start t = start r \<or>
      (start r < start t \<and> start t \<le> position r \<and> flush_on_write r \<and> \<not> locked r)) \<and>
     merge_text (out t) = merge_text (out r @ pend r (start t))"

definition sync :: "parser \<Rightarrow> parser \<Rightarrow> bool" where
  "sync r t \<longleftrightarrow> lag r t \<and> start t = start r"

definition settled :: "parser \<Rightarrow> bool" where
  "settled t \<longleftrightarrow> (flush_on_write t \<and> \<not> locked t \<longrightarrow> position t \<le> start t)"

text \<open>
  \<open>in_text\<close>: inside a line with the lock clear and neither block recogniser active, the
  cursors non-negative and the confirmed cursor not ahead of the position.
  \<open>same_block s s'\<close>: the element stack, the heading count, the chunk store and the
  option of \<open>s'\<close> are those of \<open>s\<close>.
\<close>

definition in_text :: "parser \<Rightarrow> bool" where
  "in_text s \<longleftrightarrow>
     \<not> line_start s \<and> \<not> locked s \<and> state s \<noteq> SEQUENCE_HEADING \<and> state s \<noteq> SEQUENCE_HR \<and>
     (state s = SEQUENCE_MODIFIER \<longrightarrow> modifierStack s \<noteq> []) \<and>
     nonneg s \<and> start s \<le> position s"

definition same_block :: "parser \<Rightarrow> parser \<Rightarrow> bool" where
  "same_block s s' \<longleftrightarrow>
     stack s' = stack s \<and> top_elem s' = top_elem s \<and> heading_count s' = heading_count s \<and>
     chunks s' = chunks s \<and> flush_on_write s' = flush_on_write s"

section \<open>Invariants\<close>

text \<open>The element stack holds the root at its bottom and \<open>top\<close> is its last entry.\<close>

definition stack_ok :: "parser \<Rightarrow> bool" where
  "stack_ok s \<longleftrightarrow> stack s \<noteq> [] \<and> hd (stack s) = target s \<and> top_elem s = last (stack s)"

section \<open>What the operations leave unchanged\<close>

lemma flush_frame [simp]:
  "position (snd (flush a b s)) = position s"
  "chunks (snd (flush a b s)) = chunks s"
  "stack (snd (flush a b s)) = stack s"
  "top_elem (snd (flush a b s)) = top_elem s"
  "target (snd (flush a b s)) = target s"
  "locked (snd (flush a b s)) = locked s"
  "state (snd (flush a b s)) = state s"
  "line_start (snd (flush a b s)) = line_start s"
  "heading_count (snd (flush a b s)) = heading_count s"
  "hr_char (snd (flush a b s)) = hr_char s"
  "hr_count (snd (flush a b s)) = hr_count s"
  "modifierStack (snd (flush a b s)) = modifierStack s"
  "flush_on_write (snd (flush a b s)) = flush_on_write s"
  by (simp_all add: flush_def Let_def)

lemma flush_default_frame [simp]:
  "position (flush_default s) = position s"
  "chunks (flush_default s) = chunks s"
  "stack (flush_default s) = stack s"
  "top_elem (flush_default s) = top_elem s"
  "target (flush_default s) = target s"
  "locked (flush_default s) = locked s"
  "state (flush_default s) = state s"
  "line_start (flush_default s) = line_start s"
  "heading_count (flush_default s) = heading_count s"
  "hr_char (flush_default s) = hr_char s"
  "hr_count (flush_default s) = hr_count s"
  "modifierStack (flush_default s) = modifierStack s"
  "flush_on_write (flush_default s) = flush_on_write s"
  by (simp_all add: flush_default_def)

lemma down_frame [simp]:
  "position (down s) = position s"
  "start (down s) = start s"
  "uncorfinmed_start (down s) = uncorfinmed_start s"
  "chunks (down s) = chunks s"
  "target (down s) = target s"
  "locked (down s) = locked s"
  "state (down s) = state s"
  "line_start (down s) = line_start s"
  "heading_count (down s) = heading_count s"
  "hr_char (down s) = hr_char s"
  "hr_count (down s) = hr_count s"
  "modifierStack (down s) = modifierStack s"
  "flush_on_write (down s) = flush_on_write s"
  by (simp_all add: down_def)

lemma up_frame [simp]:
  "position (up w s) = position s"
  "start (up w s) = start s"
  "uncorfinmed_start (up w s) = uncorfinmed_start s"
  "chunks (up w s) = chunks s"
  "target (up w s) = target s"
  "locked (up w s) = locked s"
  "state (up w s) = state s"
  "line_start (up w s) = line_start s"
  "heading_count (up w s) = heading_count s"
  "hr_char (up w s) = hr_char s"
  "hr_count (up w s) = hr_count s"
  "modifierStack (up w s) = modifierStack s"
  "flush_on_write (up w s) = flush_on_write s"
  by (simp_all add: up_def)

section \<open>The element stack\<close>

lemma stack_ok_clearState: "stack_ok (clearState s)"
  by (simp add: stack_ok_def clearState_def)

lemma stack_ok_cong:
  "stack s' = stack s \<Longrightarrow> target s' = target s \<Longrightarrow> top_elem s' = top_elem s \<Longrightarrow>
   stack_ok s' = stack_ok s"
  by (simp add: stack_ok_def)

lemma stack_ok_up: "stack_ok s \<Longrightarrow> stack_ok (up w s)"
  by (simp add: stack_ok_def up_def)

lemma stack_ok_down: "stack_ok s \<Longrightarrow> stack_ok (down s)"
  by (cases "stack s" rule: rev_cases; cases "butlast (stack s)") (auto simp add: stack_ok_def down_def)

lemma case_NORMAL_stack [simp]:
  "stack (case_NORMAL c s) = stack s" "target (case_NORMAL c s) = target s"
  "top_elem (case_NORMAL c s) = top_elem s"
  by (simp_all add: case_NORMAL_def Let_def)

lemma case_SEQUENCE_HR_stack [simp]:
  "stack (case_SEQUENCE_HR c s) = stack s" "target (case_SEQUENCE_HR c s) = target s"
  "top_elem (case_SEQUENCE_HR c s) = top_elem s"
  by (simp_all add: case_SEQUENCE_HR_def Let_def split: option.splits)

lemma stack_ok_case_SEQUENCE_HEADING: "stack_ok s \<Longrightarrow> stack_ok (case_SEQUENCE_HEADING c s)"
  by (simp add: case_SEQUENCE_HEADING_def Let_def stack_ok_def up_def)

lemma case_SEQUENCE_MODIFIER_stack:
  "case_SEQUENCE_MODIFIER c s = Inr s' \<Longrightarrow>
   stack s' = stack s \<and> target s' = target s \<and> top_elem s' = top_elem s"
  by (auto simp add: case_SEQUENCE_MODIFIER_def Let_def split: if_splits)

lemma stack_ok_switch_state: "stack_ok s \<Longrightarrow> switch_state c s = Inr s' \<Longrightarrow> stack_ok s'"
proof (cases "state s")
  case SEQUENCE_MODIFIER
  assume "stack_ok s" "switch_state c s = Inr s'"
  with SEQUENCE_MODIFIER case_SEQUENCE_MODIFIER_stack[of c s s'] show ?thesis
    by (simp add: switch_state_def stack_ok_def)
next
  case SEQUENCE_HEADING
  assume "stack_ok s" "switch_state c s = Inr s'"
  with SEQUENCE_HEADING stack_ok_case_SEQUENCE_HEADING[of s c] show ?thesis
    by (simp add: switch_state_def)
qed (auto simp add: switch_state_def stack_ok_def)

lemma stack_ok_after_switch: "stack_ok s \<Longrightarrow> stack_ok (after_switch c s)"
proof -
  assume ok: "stack_ok s"
  have 1: "stack_ok (s\<lparr>line_start := True, modifierStack := []\<rparr>)"
    using ok by (simp add: stack_ok_def)
  have 2: "stack_ok (flush_default (s\<lparr>line_start := True, modifierStack := []\<rparr>))"
    using 1 by (simp add: stack_ok_def)
  have 3: "stack_ok (down (flush_default (s\<lparr>line_start := True, modifierStack := []\<rparr>)))"
    using 2 by (rule stack_ok_down)
  show ?thesis
    using ok 1 3 by (simp add: after_switch_def Let_def stack_ok_def)
qed

lemma stack_ok_process_char: "stack_ok s \<Longrightarrow> process_char c s = Inr s' \<Longrightarrow> stack_ok s'"
proof -
  assume ok: "stack_ok s" and p: "process_char c s = Inr s'"
  from p obtain s1 where 1: "switch_state c s = Inr s1" and 2: "s' = after_switch c s1"
    by (auto simp add: process_char_def split: sum.splits)
  show ?thesis unfolding 2 by (rule stack_ok_after_switch[OF stack_ok_switch_state[OF ok 1]])
qed

lemma stack_ok_write_loop: "stack_ok s \<Longrightarrow> write_loop cs s = Inr s' \<Longrightarrow> stack_ok s'"
  by (induction cs arbitrary: s) (auto split: sum.splits dest: stack_ok_process_char)

lemma stack_ok_write_chunk: "stack_ok s \<Longrightarrow> write_chunk chunk s = Inr s' \<Longrightarrow> stack_ok s'"
proof -
  assume ok: "stack_ok s" and w: "write_chunk chunk s = Inr s'"
  from ok have ok1: "stack_ok (s\<lparr>chunks := chunks s @ [chunk]\<rparr>)" by (simp add: stack_ok_def)
  from w obtain s1 where l: "write_loop chunk (s\<lparr>chunks := chunks s @ [chunk]\<rparr>) = Inr s1"
    and s': "s' = (if flush_on_write s1 then flush_default s1 else s1)"
    by (auto simp add: write_chunk_def split: sum.splits)
  from stack_ok_write_loop[OF ok1 l] have "stack_ok s1" .
  then show ?thesis unfolding s' by (simp add: stack_ok_def)
qed

lemma stack_ok_end_stream: "stack_ok (end_stream s)"
  by (simp add: end_stream_def stack_ok_clearState)

lemma stack_ok_run_call: "stack_ok s \<Longrightarrow> run_call c s = Inr s' \<Longrightarrow> stack_ok s'"
proof (cases c)
  case (Write chunk)
  assume "stack_ok s" "run_call c s = Inr s'"
  with Write show ?thesis by (simp add: stack_ok_write_chunk)
next
  case (Flush a b)
  assume "stack_ok s" "run_call c s = Inr s'"
  with Flush show ?thesis by (auto simp add: stack_ok_def)
qed (auto simp add: stack_ok_up stack_ok_down stack_ok_clearState stack_ok_end_stream reset_def)

lemma stack_ok_run_calls: "stack_ok s \<Longrightarrow> run_calls cs s = Inr s' \<Longrightarrow> stack_ok s'"
  by (induction cs arbitrary: s) (auto split: sum.splits dest: stack_ok_run_call)

text \<open>
  Claim C10. After \<open>clearState\<close> and any sequence of calls of \<open>write\<close>, \<open>flush\<close>, \<open>up\<close>,
  \<open>down\<close>, \<open>end\<close>, \<open>clearState\<close> and \<open>reset\<close> that returns, the element stack is not empty, its
  bottom entry is the target (the root is never popped, however many times \<open>down\<close> is
  called), and \<open>top\<close> is the last entry of the stack, so every append has a defined receiver.
\<close>

theorem element_stack_never_empty:
  "run_calls cs (clearState s) = Inr s' \<Longrightarrow>
   stack s' \<noteq> [] \<and> hd (stack s') = target s' \<and> top_elem s' = last (stack s')"
  using stack_ok_run_calls[OF stack_ok_clearState] by (simp add: stack_ok_def)

theorem element_stack_never_empty_witness:
  "run_calls [Write [HASH, SPACE, 97, NEWLINE], Down, Down, Up Hr, Down, Down]
       (clearState (new_LWMD True))
     = Inr \<lparr>position = 4, start = 4, uncorfinmed_start = None, stack = [Target],
        chunks = [[HASH, SPACE, 97, NEWLINE]], top_elem = Target, target = Target,
        locked = False, state = NORMAL, line_start = True, heading_count = 0,
        hr_char = None, hr_count = 0, modifierStack = [], flush_on_write = True,
        out = [OpenBlock Target (Heading 1), AppendText (Heading 1) [97], CloseBlock,
               AppendText Target [NEWLINE], OpenBlock Target Hr, CloseBlock]\<rparr>
   \<and> [Target] \<noteq> [] \<and> hd [Target] = Target \<and> Target = last [Target]"
proof -
  have e: "run_calls [Write [HASH, SPACE, 97, NEWLINE], Down, Down, Up Hr, Down, Down]
       (clearState (new_LWMD True))
     = Inr \<lparr>position = 4, start = 4, uncorfinmed_start = None, stack = [Target],
        chunks = [[HASH, SPACE, 97, NEWLINE]], top_elem = Target, target = Target,
        locked = False, state = NORMAL, line_start = True, heading_count = 0,
        hr_char = None, hr_count = 0, modifierStack = [], flush_on_write = True,
        out = [OpenBlock Target (Heading 1), AppendText (Heading 1) [97], CloseBlock,
               AppendText Target [NEWLINE], OpenBlock Target Hr, CloseBlock]\<rparr>"
    by code_simp
  from element_stack_never_empty[OF e] e show ?thesis by simp
qed

section \<open>Line boundaries\<close>

lemma after_switch_newline:
  "modifierStack (after_switch NEWLINE s) = [] \<and> line_start (after_switch NEWLINE s)"
  by (simp add: after_switch_def Let_def)

lemma switch_state_throws_iff:
  "(\<exists>s'. switch_state c s = Inr s') \<longleftrightarrow> \<not> (state s = SEQUENCE_MODIFIER \<and> modifierStack s = [])"
  by (cases "state s") (simp_all add: switch_state_def case_SEQUENCE_MODIFIER_def Let_def)

lemma process_char_returns_iff:
  "(\<exists>s'. process_char c s = Inr s') \<longleftrightarrow> \<not> (state s = SEQUENCE_MODIFIER \<and> modifierStack s = [])"
  unfolding switch_state_throws_iff[symmetric, of s c]
  by (cases "switch_state c s") (simp_all add: process_char_def)

lemma process_char_newline:
  "process_char NEWLINE s = Inr s' \<Longrightarrow> modifierStack s' = [] \<and> line_start s'"
  by (cases "switch_state NEWLINE s") (auto simp add: process_char_def after_switch_newline)

lemma write_loop_append:
  "write_loop (xs @ ys) s = (case write_loop xs s of Inl e \<Rightarrow> Inl e | Inr s' \<Rightarrow> write_loop ys s')"
  by (induction xs arbitrary: s) (simp_all split: sum.splits)

text \<open>
  Claim C8. Whenever the loop has processed a newline character, from any parser state and
  after any input before it, the modifier stack is empty and \<open>line_start\<close> is set, so no
  emphasis run survives a line boundary. Processing the newline returns in every state but
  one: the modifier state entered with an empty modifier stack, where the loop throws
  (and the stack is empty already).
\<close>

theorem newline_clears_modifier_stack:
  "(write_loop (cs @ [NEWLINE]) s = Inr s' \<longrightarrow> modifierStack s' = [] \<and> line_start s') \<and>
   ((\<exists>s1. process_char NEWLINE s = Inr s1) \<longleftrightarrow>
      \<not> (state s = SEQUENCE_MODIFIER \<and> modifierStack s = []))"
proof -
  have "modifierStack s' = [] \<and> line_start s'" if w: "write_loop (cs @ [NEWLINE]) s = Inr s'"
  proof -
    from w obtain s1 where "write_loop cs s = Inr s1" and "process_char NEWLINE s1 = Inr s'"
      by (auto simp add: write_loop_append split: sum.splits)
    then show ?thesis by (simp add: process_char_newline)
  qed
  then show ?thesis using process_char_returns_iff[of NEWLINE s] by blast
qed

theorem newline_clears_modifier_stack_witness:
  "map_sum id modifierStack
      (write_loop [97, ASTERISK, ASTERISK]
         ((new_LWMD True)\<lparr>chunks := [[97, ASTERISK, ASTERISK, NEWLINE]]\<rparr>))
     = Inr [(ASTERISK, 2, None)] \<and>
   write_loop ([97, ASTERISK, ASTERISK] @ [NEWLINE])
      ((new_LWMD True)\<lparr>chunks := [[97, ASTERISK, ASTERISK, NEWLINE]]\<rparr>)
     = Inr \<lparr>position = 4, start = 1, uncorfinmed_start = Some 3, stack = [Target],
        chunks = [[97, ASTERISK, ASTERISK, NEWLINE]], top_elem = Target, target = Target,
        locked = False, state = NORMAL, line_start = True, heading_count = 0,
        hr_char = None, hr_count = 0, modifierStack = [], flush_on_write = True,
        out = [AppendText Target [97]]\<rparr> \<and>
   modifierStack \<lparr>position = 4, start = 1, uncorfinmed_start = Some 3, stack = [Target],
        chunks = [[97, ASTERISK, ASTERISK, NEWLINE]], top_elem = Target, target = Target,
        locked = False, state = NORMAL, line_start = True, heading_count = 0,
        hr_char = None, hr_count = 0, modifierStack = [], flush_on_write = True,
        out = [AppendText Target [97]]\<rparr> = [] \<and>
   line_start \<lparr>position = 4, start = 1, uncorfinmed_start = Some 3, stack = [Target],
        chunks = [[97, ASTERISK, ASTERISK, NEWLINE]], top_elem = Target, target = Target,
        locked = False, state = NORMAL, line_start = True, heading_count = 0,
        hr_char = None, hr_count = 0, modifierStack = [], flush_on_write = True,
        out = [AppendText Target [97]]\<rparr>"
proof -
  have e: "write_loop ([97, ASTERISK, ASTERISK] @ [NEWLINE])
      ((new_LWMD True)\<lparr>chunks := [[97, ASTERISK, ASTERISK, NEWLINE]]\<rparr>)
     = Inr \<lparr>position = 4, start = 1, uncorfinmed_start = Some 3, stack = [Target],
        chunks = [[97, ASTERISK, ASTERISK, NEWLINE]], top_elem = Target, target = Target,
        locked = False, state = NORMAL, line_start = True, heading_count = 0,
        hr_char = None, hr_count = 0, modifierStack = [], flush_on_write = True,
        out = [AppendText Target [97]]\<rparr>"
    by code_simp
  have p: "map_sum id modifierStack
      (write_loop [97, ASTERISK, ASTERISK]
         ((new_LWMD True)\<lparr>chunks := [[97, ASTERISK, ASTERISK, NEWLINE]]\<rparr>))
     = Inr [(ASTERISK, 2, None)]"
    by code_simp
  from newline_clears_modifier_stack[THEN conjunct1, rule_format, OF e] e p
  show ?thesis by simp
qed

section \<open>End of stream\<close>

text \<open>
  Claim C7. The stream \<open>"##"\<close> followed by \<open>end()\<close>: the heading case has moved
  \<open>uncorfinmed_start\<close> to the last marker, so \<open>end\<close> flushes the span from 1 to 2 and the
  output receives the single character \<open>"#"\<close>, where the claim has \<open>"##"\<close>. The rule run
  \<open>"--"\<close>, whose case leaves \<open>uncorfinmed_start\<close> alone, is flushed whole.
\<close>

theorem end_stream_heading_run_loses_markers:
  "map_sum id out (stream [[HASH, HASH]] (new_LWMD True)) = Inr [AppendText Target [HASH]] \<and>
   map_sum id (\<lambda>s. (locked s, uncorfinmed_start s, position s))
      (write_chunk [HASH, HASH] (new_LWMD True)) = Inr (True, Some 1, 2) \<and>
   map_sum id out (stream [[DASH, DASH]] (new_LWMD True)) = Inr [AppendText Target [DASH, DASH]]"
  by code_simp

section \<open>Commands emitted\<close>

lemma emitsI: "out s' = out s @ ys \<Longrightarrow> list_all P ys \<Longrightarrow> emits P s s'"
  by (simp add: emits_def)

lemma emitsE: "emits P s s' \<Longrightarrow> \<exists>ys. out s' = out s @ ys \<and> list_all P ys"
  unfolding emits_def by (metis append_take_drop_id)

lemma emits_refl: "out s' = out s \<Longrightarrow> emits P s s'"
  by (simp add: emits_def)

lemma emits_trans: "emits P s s1 \<Longrightarrow> emits P s1 s2 \<Longrightarrow> emits P s s2"
proof -
  assume "emits P s s1" "emits P s1 s2"
  then obtain ys zs where "out s1 = out s @ ys" "list_all P ys" "out s2 = out s1 @ zs" "list_all P zs"
    by (blast dest: emitsE)
  then show ?thesis by (intro emitsI[of _ _ "ys @ zs"]) simp_all
qed

lemma emits_mono: "emits P s s' \<Longrightarrow> (\<And>c. P c \<Longrightarrow> Q c) \<Longrightarrow> emits Q s s'"
  by (auto simp add: emits_def list_all_iff)

lemma emits_cong: "out a = out s \<Longrightarrow> out b = out s' \<Longrightarrow> emits P a b = emits P s s'"
  by (simp add: emits_def)

lemma emits_flush: "emits is_text s (snd (flush a b s))"
  by (simp add: flush_def Let_def emits_def)

lemma emits_flush_default: "emits is_text s (flush_default s)"
  by (simp add: flush_default_def emits_flush)

lemma emits_down: "emits (\<lambda>c. \<not> opens_element c) s (down s)"
  by (simp add: down_def emits_def)

lemma is_text_not_opens: "is_text c \<Longrightarrow> \<not> opens_element c"
  by (cases c) simp_all

lemma after_switch_frame [simp]:
  "position (after_switch c s) = position s + 1"
  "chunks (after_switch c s) = chunks s"
  "target (after_switch c s) = target s"
  "locked (after_switch c s) = locked s"
  "state (after_switch c s) = state s"
  "hr_char (after_switch c s) = hr_char s"
  "hr_count (after_switch c s) = hr_count s"
  "flush_on_write (after_switch c s) = flush_on_write s"
  by (simp_all add: after_switch_def Let_def)

lemma after_switch_not_newline:
  "c \<noteq> NEWLINE \<Longrightarrow> after_switch c s = s\<lparr>line_start := False, position := position s + 1\<rparr>"
  by (cases "line_start s") (simp_all add: after_switch_def)

lemma emits_after_switch: "emits (\<lambda>c. \<not> opens_element c) s (after_switch c s)"
proof -
  let ?s2 = "s\<lparr>line_start := True, modifierStack := []\<rparr>"
  have "emits (\<lambda>c. \<not> opens_element c) ?s2 (flush_default ?s2)"
    by (rule emits_mono[OF emits_flush_default]) (rule is_text_not_opens)
  from emits_trans[OF this emits_down]
  have "emits (\<lambda>c. \<not> opens_element c) s (down (flush_default ?s2))"
    by (simp add: emits_def)
  then show ?thesis
    by (simp add: after_switch_def Let_def emits_def)
qed

lemma emits_update [simp]:
  "emits P s (s'\<lparr>state := a\<rparr>) = emits P s s'"
  "emits P s (s'\<lparr>locked := b\<rparr>) = emits P s s'"
  "emits P s (s'\<lparr>modifierStack := c\<rparr>) = emits P s s'"
  "emits P s (s'\<lparr>uncorfinmed_start := d\<rparr>) = emits P s s'"
  "emits P s (s'\<lparr>hr_char := e\<rparr>) = emits P s s'"
  "emits P s (s'\<lparr>hr_count := f\<rparr>) = emits P s s'"
  "emits P s (s'\<lparr>heading_count := g\<rparr>) = emits P s s'"
  "emits P s (s'\<lparr>line_start := h\<rparr>) = emits P s s'"
  "emits P s (s'\<lparr>position := i\<rparr>) = emits P s s'"
  "emits P s (s'\<lparr>start := j\<rparr>) = emits P s s'"
  "emits P s (s'\<lparr>chunks := k\<rparr>) = emits P s s'"
  by (simp_all add: emits_def)

lemma emits_update_left [simp]:
  "emits P (s\<lparr>state := a\<rparr>) s' = emits P s s'"
  "emits P (s\<lparr>locked := b\<rparr>) s' = emits P s s'"
  "emits P (s\<lparr>line_start := h\<rparr>) s' = emits P s s'"
  "emits P (s\<lparr>modifierStack := c\<rparr>) s' = emits P s s'"
  by (simp_all add: emits_def)

lemma emits_self [simp]: "emits P s s"
  by (simp add: emits_def)

section \<open>Inline code\<close>

lemma code_state_loop:
  "state s = CODE \<Longrightarrow>
   \<exists>s'. write_loop cs s = Inr s' \<and> state s' = CODE \<and> emits (\<lambda>c. \<not> opens_element c) s s'"
proof (induction cs arbitrary: s)
  case Nil
  then show ?case by (simp add: emits_def)
next
  case (Cons c cs)
  have p: "process_char c s = Inr (after_switch c s)"
    using Cons.prems by (simp add: process_char_def switch_state_def)
  have "state (after_switch c s) = CODE" using Cons.prems by simp
  from Cons.IH[OF this] obtain s' where
    "write_loop cs (after_switch c s) = Inr s'" "state s' = CODE"
    "emits (\<lambda>c. \<not> opens_element c) (after_switch c s) s'" by blast
  with p emits_trans[OF emits_after_switch] show ?case by auto
qed

lemma backtick_enters_code:
  assumes "state s = NORMAL" "\<not> line_start s"
  shows "process_char BACKTICK s =
     Inr ((flush_default s)\<lparr>state := CODE, uncorfinmed_start := Some (position s + 1),
            line_start := False, position := position s + 1\<rparr>)"
  using assms
  by (simp add: process_char_def switch_state_def case_NORMAL_def isModifierChar_def Let_def
        after_switch_not_newline)

text \<open>
  A backtick met in the Normal state away from a line start flushes the pending text and
  enters the inline-code state. Whatever follows, a closing backtick included, the loop
  returns with the parser still in the inline-code state, and nothing it has emitted since
  the backtick adds an element.
\<close>

lemma backtick_then_anything_stays_code:
  assumes "state s = NORMAL" and "\<not> line_start s"
  shows "\<exists>s'. write_loop (BACKTICK # cs) s = Inr s' \<and> state s' = CODE \<and>
              emits (\<lambda>c. \<not> opens_element c) s s'"
proof -
  let ?s1 = "(flush_default s)\<lparr>state := CODE, uncorfinmed_start := Some (position s + 1),
            line_start := False, position := position s + 1\<rparr>"
  have e1: "emits (\<lambda>c. \<not> opens_element c) s ?s1"
    using emits_mono[OF emits_flush_default[of s], of "\<lambda>c. \<not> opens_element c"]
    by (simp add: emits_def is_text_not_opens)
  have "state ?s1 = CODE" by simp
  from code_state_loop[OF this, of cs] obtain s' where
    "write_loop cs ?s1 = Inr s'" "state s' = CODE" "emits (\<lambda>c. \<not> opens_element c) ?s1 s'"
    by blast
  with backtick_enters_code[OF assms] emits_trans[OF e1] show ?thesis by auto
qed

text \<open>
  Claim C5. The Normal case enters the inline-code state on a backtick, as it enters the
  heading, rule and modifier states on their markers; but where each of those states has a
  case in the switch that returns to Normal, the inline-code state has none, so the closing
  backtick is not recognised. On \<open>a`b`\<close> the parser is still in the inline-code state
  after the closing backtick, no code span has been opened, confirmed or closed, and the
  output is the text \<open>a\<close> followed, when \<open>flush_on_write\<close> is set, by the text
  \<open>`b`\<close>; without that option the three characters are never output, not even by
  \<open>end\<close>. A heading on a later line is left as text. The code does not do what the
  claim requires.
\<close>

theorem inline_code_closing_backtick_ignored:
  "map_sum id (\<lambda>s. (state s, out s)) (write_chunk [97, BACKTICK, 98, BACKTICK] (new_LWMD True))
     = Inr (CODE, [AppendText Target [97], AppendText Target [BACKTICK, 98, BACKTICK]]) \<and>
   map_sum id (\<lambda>s. (state s, out s)) (write_chunk [97, BACKTICK, 98, BACKTICK] (new_LWMD False))
     = Inr (CODE, [AppendText Target [97]]) \<and>
   map_sum id out (stream [[97, BACKTICK, 98, BACKTICK]] (new_LWMD False))
     = Inr [AppendText Target [97]] \<and>
   map_sum id out (stream [[97, BACKTICK, 98, BACKTICK, NEWLINE, HASH, SPACE, 99, NEWLINE]] (new_LWMD True))
     = Inr [AppendText Target [97],
            AppendText Target [BACKTICK, 98, BACKTICK, NEWLINE, HASH, SPACE, 99, NEWLINE]]"
  by code_simp

section \<open>Emphasis runs\<close>

lemma inline_case_NORMAL:
  assumes "\<not> line_start s" "state s = NORMAL"
  shows "emits is_text s (case_NORMAL c s) \<and> stack (case_NORMAL c s) = stack s \<and>
         \<not> line_start (case_NORMAL c s) \<and>
         state (case_NORMAL c s) \<noteq> SEQUENCE_HEADING \<and>
         (state (case_NORMAL c s) = SEQUENCE_MODIFIER \<longrightarrow>
            modifierStack (case_NORMAL c s) \<noteq> [])"
  using assms by (simp add: case_NORMAL_def Let_def emits_flush_default)

lemma inline_case_SEQUENCE_HR:
  assumes "c \<noteq> NEWLINE" "state s = SEQUENCE_HR"
  shows "emits is_text s (case_SEQUENCE_HR c s) \<and> stack (case_SEQUENCE_HR c s) = stack s \<and>
         line_start (case_SEQUENCE_HR c s) = line_start s \<and>
         state (case_SEQUENCE_HR c s) \<noteq> SEQUENCE_HEADING \<and>
         (state (case_SEQUENCE_HR c s) = SEQUENCE_MODIFIER \<longrightarrow>
            modifierStack (case_SEQUENCE_HR c s) \<noteq> [])"
proof -
  have "emits is_text s (flush_default (s\<lparr>state := NORMAL, locked := False\<rparr>))"
    using emits_flush_default[of "s\<lparr>state := NORMAL, locked := False\<rparr>"] by simp
  then show ?thesis
    using assms by (simp add: case_SEQUENCE_HR_def Let_def split: option.splits)
qed

lemma inline_case_SEQUENCE_MODIFIER:
  assumes "modifierStack s \<noteq> []"
  shows "\<exists>s'. case_SEQUENCE_MODIFIER c s = Inr s' \<and> out s' = out s \<and> stack s' = stack s \<and>
         line_start s' = line_start s \<and>
         (state s' = NORMAL \<or> state s' = state s) \<and> modifierStack s' \<noteq> []"
  using assms by (simp add: case_SEQUENCE_MODIFIER_def Let_def)

lemma inline_switch_state:
  assumes "inline_inv s" "c \<noteq> NEWLINE"
  shows "\<exists>s'. switch_state c s = Inr s' \<and> emits is_text s s' \<and> stack s' = stack s \<and>
           \<not> line_start s' \<and> state s' \<noteq> SEQUENCE_HEADING \<and>
           (state s' = SEQUENCE_MODIFIER \<longrightarrow> modifierStack s' \<noteq> [])"
proof (cases "state s")
  case NORMAL
  with assms inline_case_NORMAL[of s c] show ?thesis
    by (simp add: switch_state_def inline_inv_def)
next
  case SEQUENCE_HEADING
  with assms show ?thesis by (simp add: inline_inv_def)
next
  case SEQUENCE_HR
  with assms inline_case_SEQUENCE_HR[of c s] show ?thesis
    by (simp add: switch_state_def inline_inv_def)
next
  case SEQUENCE_MODIFIER
  with assms have "modifierStack s \<noteq> []" by (simp add: inline_inv_def)
  from inline_case_SEQUENCE_MODIFIER[OF this, of c] obtain s' where
    "case_SEQUENCE_MODIFIER c s = Inr s'" "out s' = out s" "stack s' = stack s"
    "line_start s' = line_start s" "state s' = NORMAL \<or> state s' = state s" "modifierStack s' \<noteq> []"
    by blast
  with SEQUENCE_MODIFIER assms show ?thesis
    by (auto simp add: switch_state_def inline_inv_def emits_def)
next
  case CODE
  with assms show ?thesis by (simp add: switch_state_def inline_inv_def)
next
  case CODE_BLOCK
  with assms show ?thesis by (simp add: switch_state_def inline_inv_def)
qed

lemma inline_process_char:
  assumes "inline_inv s" "c \<noteq> NEWLINE"
  shows "\<exists>s'. process_char c s = Inr s' \<and> emits is_text s s' \<and> stack s' = stack s \<and>
           inline_inv s'"
proof -
  from inline_switch_state[OF assms] obtain s1 where
    s1: "switch_state c s = Inr s1" "emits is_text s s1" "stack s1 = stack s"
      "\<not> line_start s1" "state s1 \<noteq> SEQUENCE_HEADING"
      "state s1 = SEQUENCE_MODIFIER \<longrightarrow> modifierStack s1 \<noteq> []"
    by blast
  have "process_char c s = Inr (s1\<lparr>line_start := False, position := position s1 + 1\<rparr>)"
    using s1(1) assms(2) by (simp add: process_char_def after_switch_not_newline)
  with s1 show ?thesis by (simp add: inline_inv_def)
qed

lemma inline_write_loop:
  assumes "inline_inv s" "NEWLINE \<notin> set cs"
  shows "\<exists>s'. write_loop cs s = Inr s' \<and> emits is_text s s' \<and> stack s' = stack s \<and>
           inline_inv s'"
  using assms
proof (induction cs arbitrary: s)
  case Nil
  then show ?case by simp
next
  case (Cons c cs)
  then have "c \<noteq> NEWLINE" "NEWLINE \<notin> set cs" by auto
  from inline_process_char[OF Cons.prems(1) this(1)] obtain s1 where
    s1: "process_char c s = Inr s1" "emits is_text s s1" "stack s1 = stack s" "inline_inv s1"
    by blast
  from Cons.IH[OF s1(4) \<open>NEWLINE \<notin> set cs\<close>] obtain s' where
    "write_loop cs s1 = Inr s'" "emits is_text s1 s'" "stack s' = stack s1" "inline_inv s'"
    by blast
  with s1 emits_trans[OF s1(2)] show ?case by auto
qed

lemma line_start_first_char:
  assumes "state s = NORMAL" "line_start s" "c \<noteq> NEWLINE" "c \<noteq> HASH"
  shows "\<exists>s'. process_char c s = Inr s' \<and> emits is_text s s' \<and> stack s' = stack s \<and>
           inline_inv s'"
proof -
  have "emits is_text s (case_NORMAL c s) \<and> stack (case_NORMAL c s) = stack s \<and>
     state (case_NORMAL c s) \<noteq> SEQUENCE_HEADING \<and> state (case_NORMAL c s) \<noteq> SEQUENCE_MODIFIER"
    using assms by (simp add: case_NORMAL_def Let_def emits_flush_default)
  then show ?thesis using assms
    by (simp add: process_char_def switch_state_def after_switch_not_newline inline_inv_def)
qed

text \<open>
  On one line (no newline in the input), from the Normal state and not starting with a
  heading marker at a line start, the loop returns and everything it emits is a text append;
  the element stack is unchanged.
\<close>

lemma one_line_emits_text_only:
  assumes "state s = NORMAL" and "NEWLINE \<notin> set cs" and "line_start s \<longrightarrow> take 1 cs \<noteq> [HASH]"
  shows "\<exists>s'. write_loop cs s = Inr s' \<and> emits is_text s s' \<and> stack s' = stack s"
proof (cases "line_start s")
  case False
  with assms have "inline_inv s" by (simp add: inline_inv_def)
  from inline_write_loop[OF this assms(2)] show ?thesis by blast
next
  case True
  show ?thesis
  proof (cases cs)
    case Nil
    then show ?thesis by simp
  next
    case (Cons c cs')
    with assms True have c: "c \<noteq> NEWLINE" "c \<noteq> HASH" "NEWLINE \<notin> set cs'" by auto
    from line_start_first_char[OF assms(1) True c(1,2)] obtain s1 where
      s1: "process_char c s = Inr s1" "emits is_text s s1" "stack s1 = stack s" "inline_inv s1"
      by blast
    from inline_write_loop[OF s1(4) c(3)] obtain s' where
      "write_loop cs' s1 = Inr s'" "emits is_text s1 s'" "stack s' = stack s1" by blast
    with s1 Cons emits_trans[OF s1(2)] show ?thesis by auto
  qed
qed

text \<open>
  Claim C4. The class comment says that a modifier is kept as text ``until it is confirmed,
  then it is wrapped'', and the modifier case compares the run on top of the modifier stack
  with the run below it (equal marker, equal length). But the branch taken on a match is
  empty and \<open>wrapNode\<close> is called nowhere, so a matched pair of runs issues no command
  for a span. On \<open>a*b*\<close> the closing marker is pushed by the Normal case, which makes
  no comparison; on \<open>a**b**\<close> the match condition of the modifier case holds on the last
  character. In both the output is text appends only, markers included, and with
  \<open>flush_on_write\<close> off the closing run is never output at all. The code does not do
  what the claim requires.
\<close>

theorem emphasis_match_issues_no_span:
  "map_sum id out (stream [[97, ASTERISK, 98, ASTERISK]] (new_LWMD True))
     = Inr [AppendText Target [97], AppendText Target [ASTERISK, 98], AppendText Target [ASTERISK]] \<and>
   map_sum id out (stream [[97, ASTERISK, 98, ASTERISK]] (new_LWMD False))
     = Inr [AppendText Target [97], AppendText Target [ASTERISK, 98]] \<and>
   map_sum id modifierStack
      (write_chunk [97, ASTERISK, ASTERISK, 98, ASTERISK] (new_LWMD True))
     = Inr [(ASTERISK, 2, Some 3), (ASTERISK, 1, None)] \<and>
   modifier_match ASTERISK [(ASTERISK, 2, Some 3), (ASTERISK, 1, None)] \<and>
   map_sum id out (stream [[97, ASTERISK, ASTERISK, 98, ASTERISK, ASTERISK]] (new_LWMD True))
     = Inr [AppendText Target [97], AppendText Target [ASTERISK, ASTERISK, 98],
            AppendText Target [ASTERISK, ASTERISK]] \<and>
   map_sum id out (stream [[97, ASTERISK, ASTERISK, 98, ASTERISK, ASTERISK]] (new_LWMD False))
     = Inr [AppendText Target [97], AppendText Target [ASTERISK, ASTERISK, 98]]"
  by code_simp

section \<open>Aborting recognisers\<close>

lemma heading_abort:
  assumes "state s = SEQUENCE_HEADING" "c \<noteq> HASH" "c \<noteq> SPACE" "c \<noteq> NEWLINE"
  shows "process_char c s =
     Inr (s\<lparr>state := NORMAL, locked := False, heading_count := 0,
            uncorfinmed_start := None, line_start := False, position := position s + 1\<rparr>)"
  using assms
  by (simp add: process_char_def switch_state_def case_SEQUENCE_HEADING_def Let_def
        after_switch_not_newline)

lemma hr_abort:
  assumes "state s = SEQUENCE_HR" "hr_char s = Some h" "c \<noteq> h" "c \<noteq> SPACE" "c \<noteq> NEWLINE"
  shows "process_char c s =
     Inr (if isModifierChar h
          then (flush_default (s\<lparr>state := NORMAL, locked := False\<rparr>))
                 \<lparr>state := SEQUENCE_MODIFIER,
                  modifierStack := modifierStack s @ [(h, hr_count s, None)],
                  uncorfinmed_start := Some (position s + 1),
                  hr_char := None, hr_count := 0,
                  line_start := False, position := position s + 1\<rparr>
          else s\<lparr>state := NORMAL, locked := False, hr_char := None, hr_count := 0,
                 line_start := False, position := position s + 1\<rparr>)"
  using assms
  by (simp add: process_char_def switch_state_def case_SEQUENCE_HR_def Let_def
        after_switch_not_newline)

text \<open>
  Claim C6, as the code has it. When a character other than a marker, a space or a newline
  ends a heading run or a rule run, the recogniser aborts: the lock is cleared, the state
  is Normal again (or, for a rule run of emphasis markers, the modifier state, with the run
  itself pushed on the modifier stack), and the position advances by one. The result does
  not depend on which character it was: the character is consumed once and is not
  dispatched to the Normal case, so it starts no recogniser of its own.
\<close>

theorem abort_consumes_trigger_without_reprocessing:
  "(state s = SEQUENCE_HEADING \<and> c \<noteq> HASH \<and> c \<noteq> SPACE \<and> c \<noteq> NEWLINE \<longrightarrow>
      process_char c s =
        Inr (s\<lparr>state := NORMAL, locked := False, heading_count := 0,
               uncorfinmed_start := None, line_start := False, position := position s + 1\<rparr>)) \<and>
   (state s = SEQUENCE_HR \<and> hr_char s = Some h \<and> c \<noteq> h \<and> c \<noteq> SPACE \<and> c \<noteq> NEWLINE \<longrightarrow>
      process_char c s =
        Inr (if isModifierChar h
             then (flush_default (s\<lparr>state := NORMAL, locked := False\<rparr>))
                    \<lparr>state := SEQUENCE_MODIFIER,
                     modifierStack := modifierStack s @ [(h, hr_count s, None)],
                     uncorfinmed_start := Some (position s + 1),
                     hr_char := None, hr_count := 0,
                     line_start := False, position := position s + 1\<rparr>
             else s\<lparr>state := NORMAL, locked := False, hr_char := None, hr_count := 0,
                    line_start := False, position := position s + 1\<rparr>))"
  using heading_abort[of s c] hr_abort[of s h c] by blast

theorem abort_consumes_trigger_without_reprocessing_witness:
  "process_char ASTERISK
      \<lparr>position = 1, start = 0, uncorfinmed_start = Some 0, stack = [Target],
       chunks = [[HASH, ASTERISK]], top_elem = Target, target = Target, locked = True,
       state = SEQUENCE_HEADING, line_start = False, heading_count = 1, hr_char = None,
       hr_count = 0, modifierStack = [], flush_on_write = True, out = []\<rparr>
     = Inr \<lparr>position = 2, start = 0, uncorfinmed_start = None, stack = [Target],
       chunks = [[HASH, ASTERISK]], top_elem = Target, target = Target, locked = False,
       state = NORMAL, line_start = False, heading_count = 0, hr_char = None,
       hr_count = 0, modifierStack = [], flush_on_write = True, out = []\<rparr> \<and>
   process_char 97
      \<lparr>position = 2, start = 0, uncorfinmed_start = Some 0, stack = [Target],
       chunks = [[ASTERISK, ASTERISK, 97]], top_elem = Target, target = Target, locked = True,
       state = SEQUENCE_HR, line_start = False, heading_count = 0, hr_char = Some ASTERISK,
       hr_count = 2, modifierStack = [], flush_on_write = True, out = []\<rparr>
     = Inr \<lparr>position = 3, start = 2, uncorfinmed_start = Some 3, stack = [Target],
       chunks = [[ASTERISK, ASTERISK, 97]], top_elem = Target, target = Target, locked = False,
       state = SEQUENCE_MODIFIER, line_start = False, heading_count = 0, hr_char = None,
       hr_count = 0, modifierStack = [(ASTERISK, 2, None)], flush_on_write = True,
       out = [AppendText Target [ASTERISK, ASTERISK]]\<rparr>"
proof -
  let ?s = "\<lparr>position = 1, start = 0, uncorfinmed_start = Some 0, stack = [Target],
       chunks = [[HASH, ASTERISK]], top_elem = Target, target = Target, locked = True,
       state = SEQUENCE_HEADING, line_start = False, heading_count = 1, hr_char = None,
       hr_count = 0, modifierStack = [], flush_on_write = True, out = []\<rparr>"
  let ?t = "\<lparr>position = 2, start = 0, uncorfinmed_start = Some 0, stack = [Target],
       chunks = [[ASTERISK, ASTERISK, 97]], top_elem = Target, target = Target, locked = True,
       state = SEQUENCE_HR, line_start = False, heading_count = 0, hr_char = Some ASTERISK,
       hr_count = 2, modifierStack = [], flush_on_write = True, out = []\<rparr>"
  have f: "flush_default
       \<lparr>position = 2, start = 0, uncorfinmed_start = Some 0, stack = [Target],
        chunks = [[ASTERISK, ASTERISK, 97]], top_elem = Target, target = Target, locked = False,
        state = NORMAL, line_start = False, heading_count = 0, hr_char = Some ASTERISK,
        hr_count = 2, modifierStack = [], flush_on_write = True, out = []\<rparr>
     = \<lparr>position = 2, start = 2, uncorfinmed_start = None, stack = [Target],
        chunks = [[ASTERISK, ASTERISK, 97]], top_elem = Target, target = Target, locked = False,
        state = NORMAL, line_start = False, heading_count = 0, hr_char = Some ASTERISK,
        hr_count = 2, modifierStack = [], flush_on_write = True,
        out = [AppendText Target [ASTERISK, ASTERISK]]\<rparr>"
    by code_simp
  have 1: "state ?s = SEQUENCE_HEADING \<and> ASTERISK \<noteq> HASH \<and> ASTERISK \<noteq> SPACE \<and> ASTERISK \<noteq> NEWLINE"
    by simp
  have 2: "state ?t = SEQUENCE_HR \<and> hr_char ?t = Some ASTERISK \<and> 97 \<noteq> ASTERISK \<and> 97 \<noteq> SPACE \<and> 97 \<noteq> NEWLINE"
    by simp
  from abort_consumes_trigger_without_reprocessing[of ?s ASTERISK, THEN conjunct1, rule_format, OF 1]
       abort_consumes_trigger_without_reprocessing[of ?t 97 ASTERISK, THEN conjunct2, rule_format, OF 2]
  show ?thesis by (simp add: f isModifierChar_def)
qed

text \<open>
  The claim fails on \<open>#*\<close>: the asterisk that aborts the heading run starts no modifier
  run (the state is Normal and the modifier stack is empty), while the same asterisk after
  \<open>a\<close> does. Likewise a backtick that aborts a heading or a rule run does not enter the
  inline-code state.
\<close>

theorem abort_reprocesses_trigger_counterexample:
  "map_sum id (\<lambda>s. (state s, modifierStack s)) (write_chunk [HASH, ASTERISK] (new_LWMD True))
     = Inr (NORMAL, []) \<and>
   map_sum id (\<lambda>s. (state s, modifierStack s)) (write_chunk [97, ASTERISK] (new_LWMD True))
     = Inr (SEQUENCE_MODIFIER, [(ASTERISK, 1, None)]) \<and>
   map_sum id state (write_chunk [HASH, 97, BACKTICK] (new_LWMD True)) = Inr CODE \<and>
   map_sum id state (write_chunk [HASH, BACKTICK] (new_LWMD True)) = Inr NORMAL \<and>
   map_sum id state (write_chunk [DASH, BACKTICK] (new_LWMD True)) = Inr NORMAL"
  by code_simp

section \<open>Reading a span from the chunk store\<close>

text \<open>
  For non-negative offsets \<open>getSubstring\<close> is \<open>slice\<close> on the concatenation of the chunks,
  whichever of its three paths answers.
\<close>

lemma js_slice_nat:
  "js_slice s (int i) (int j) = take (j - i) (drop i s)"
proof (cases "i \<le> length s")
  case True
  then show ?thesis
    by (cases "j \<le> length s") (simp_all add: js_slice_def Let_def min_def nat_diff_distrib')
next
  case False
  then show ?thesis by (simp add: js_slice_def Let_def min_def)
qed

lemma js_slice_nonneg:
  "0 \<le> a \<Longrightarrow> 0 \<le> b \<Longrightarrow> js_slice s a b = take (nat b - nat a) (drop (nat a) s)"
  using js_slice_nat[of s "nat a" "nat b"] by simp

lemma js_slice_empty: "0 \<le> a \<Longrightarrow> 0 \<le> b \<Longrightarrow> b \<le> a \<Longrightarrow> js_slice s a b = []"
  by (simp add: js_slice_nonneg)

lemma js_slice_whole: "js_slice xs (int 0) (int (length xs)) = xs"
  by (simp only: js_slice_nat) simp

lemma js_slice_append_right:
  "js_slice (xs @ ys) (int (length xs + i)) (int (length xs + j)) = js_slice ys (int i) (int j)"
  by (simp only: js_slice_nat) simp

lemma js_slice_append_left:
  "j \<le> length xs \<Longrightarrow> js_slice (xs @ ys) (int i) (int j) = js_slice xs (int i) (int j)"
  by (simp only: js_slice_nat) simp

lemma js_slice_append_split:
  "length xs < j \<Longrightarrow>
   js_slice (xs @ ys) (int i) (int j) =
     (if i < length xs then js_slice xs (int i) (int (length xs)) else []) @
     js_slice ys (int (i - length xs)) (int (j - length xs))"
  by (simp only: js_slice_nat) auto

lemma getSubstring_fast_None:
  "st < idx \<Longrightarrow> getSubstring_fast cs idx st en = None"
  by (induction cs arbitrary: idx) (auto simp add: Let_def)

lemma getSubstring_fast_correct:
  "getSubstring_fast cs idx st en = Some r \<Longrightarrow> idx \<le> st \<Longrightarrow> idx \<le> en \<Longrightarrow>
   r = js_slice (concat cs) (st - idx) (en - idx)"
proof (induction cs arbitrary: idx)
  case Nil
  then show ?case by simp
next
  case (Cons chunk rest)
  let ?len = "int (length chunk)"
  consider (exact) "idx = st \<and> idx + ?len = en"
    | (inside) "\<not> (idx = st \<and> idx + ?len = en)" "en \<le> idx + ?len"
    | (later) "\<not> (idx = st \<and> idx + ?len = en)" "\<not> en \<le> idx + ?len"
    by blast
  then show ?case
  proof cases
    case exact
    then have e: "st - idx = int 0" "en - idx = int (length chunk)" by auto
    from exact Cons.prems have "r = chunk" by simp
    also have "\<dots> = js_slice (chunk @ concat rest) (int 0) (int (length chunk))"
      by (simp only: js_slice_append_left[OF order_refl] js_slice_whole)
    finally show ?thesis unfolding e by simp
  next
    case inside
    define i where "i = nat (st - idx)"
    define j where "j = nat (en - idx)"
    have ij: "st - idx = int i" "en - idx = int j" using Cons.prems by (simp_all add: i_def j_def)
    from inside Cons.prems have r: "r = js_slice chunk (st - idx) (en - idx)"
      by (auto simp add: Let_def split: if_splits)
    from inside have j: "j \<le> length chunk" by (simp add: j_def)
    show ?thesis unfolding r ij concat.simps by (rule js_slice_append_left[OF j, symmetric])
  next
    case later
    with Cons.prems have rec: "getSubstring_fast rest (idx + ?len) st en = Some r"
      by (auto simp add: Let_def split: if_splits)
    have le1: "idx + ?len \<le> st"
    proof (rule ccontr)
      assume "\<not> idx + ?len \<le> st"
      then have "getSubstring_fast rest (idx + ?len) st en = None"
        by (intro getSubstring_fast_None) simp
      with rec show False by simp
    qed
    have le2: "idx + ?len \<le> en" using later by simp
    define i where "i = nat (st - (idx + ?len))"
    define j where "j = nat (en - (idx + ?len))"
    have ij: "st - (idx + ?len) = int i" "en - (idx + ?len) = int j"
      using le1 le2 by (simp_all add: i_def j_def)
    have ij': "st - idx = int (length chunk + i)" "en - idx = int (length chunk + j)"
      using le1 le2 by (simp_all add: i_def j_def)
    from Cons.IH[OF rec le1 le2] have "r = js_slice (concat rest) (int i) (int j)"
      unfolding ij .
    then show ?thesis unfolding ij' concat.simps by (simp only: js_slice_append_right)
  qed
qed

lemma getSubstring_general_correct:
  "st < en \<Longrightarrow> pos < en \<Longrightarrow>
   getSubstring_general cs pos st en res = res @ js_slice (concat cs) (max 0 (st - pos)) (en - pos)"
proof (induction cs arbitrary: pos res)
  case Nil
  then show ?case by (simp add: js_slice_def)
next
  case (Cons chunk rest)
  define i where "i = nat (max 0 (st - pos))"
  define j where "j = nat (en - pos)"
  have ij: "max 0 (st - pos) = int i" "en - pos = int j" using Cons.prems by (simp_all add: i_def j_def)
  let ?len = "int (length chunk)"
  show ?case
  proof (cases "pos + ?len \<ge> en")
    case True
    then have j: "j \<le> length chunk" by (simp add: j_def)
    then have m: "min ?len (int j) = int j" by simp
    have "getSubstring_general (chunk # rest) pos st en res =
        (if int i < int j then res @ js_slice chunk (int i) (int j) else res)"
      using Cons.prems True by (simp add: Let_def ij m)
    also have "\<dots> = res @ js_slice chunk (int i) (int j)"
      by (simp add: js_slice_nat)
    also have "\<dots> = res @ js_slice (concat (chunk # rest)) (int i) (int j)"
      unfolding concat.simps by (simp only: js_slice_append_left[OF j])
    finally show ?thesis unfolding ij .
  next
    case False
    then have j: "length chunk < j" by (simp add: j_def)
    then have m: "min ?len (int j) = ?len" by simp
    let ?res' = "if int i < ?len then res @ js_slice chunk (int i) ?len else res"
    have r': "?res' = res @ (if i < length chunk then js_slice chunk (int i) ?len else [])"
      by simp
    have "getSubstring_general (chunk # rest) pos st en res =
        getSubstring_general rest (pos + ?len) st en ?res'"
      using Cons.prems False by (simp add: Let_def ij m)
    also have "\<dots> = ?res' @ js_slice (concat rest) (max 0 (st - (pos + ?len))) (en - (pos + ?len))"
      using Cons.IH[of "pos + ?len" ?res'] Cons.prems False by simp
    also have "max 0 (st - (pos + ?len)) = int (i - length chunk)"
      by (simp add: i_def)
    also have "en - (pos + ?len) = int (j - length chunk)"
      using j by (simp add: j_def)
    finally have "getSubstring_general (chunk # rest) pos st en res =
        ?res' @ js_slice (concat rest) (int (i - length chunk)) (int (j - length chunk))" .
    then show ?thesis
      unfolding ij concat.simps r' by (simp only: js_slice_append_split[OF j] append_assoc)
  qed
qed

lemma getSubstring_multi:
  assumes "0 \<le> st" "0 \<le> en"
  shows "(case getSubstring_fast cs 0 st en of
            Some r \<Rightarrow> r
          | None \<Rightarrow> getSubstring_general cs 0 st en []) = js_slice (concat cs) st en"
proof (cases "getSubstring_fast cs 0 st en")
  case (Some r)
  from getSubstring_fast_correct[OF Some] assms show ?thesis using Some by simp
next
  case None
  show ?thesis
  proof (cases "st < en")
    case True
    with assms have "0 < en" by simp
    from getSubstring_general_correct[OF True this, of cs "[]"] assms None show ?thesis by simp
  next
    case False
    then have "getSubstring_general cs 0 st en [] = []" by (cases cs) simp_all
    with None False assms show ?thesis by (simp add: js_slice_empty)
  qed
qed

lemma getSubstring_concat:
  assumes "0 \<le> st" "0 \<le> en"
  shows "getSubstring cs st en = js_slice (concat cs) st en"
proof -
  consider "cs = []" | c where "cs = [c]" | c d rest where "cs = c # d # rest"
    by (cases cs rule: list.exhaust[case_product list.exhaust]) (metis list.exhaust)+
  then show ?thesis
  proof cases
    case 1
    have "getSubstring [] st en =
        (case getSubstring_fast [] 0 st en of Some r \<Rightarrow> r
         | None \<Rightarrow> getSubstring_general [] 0 st en [])"
      by (simp add: getSubstring_def)
    then show ?thesis unfolding 1 using getSubstring_multi[OF assms, of "[]"] by simp
  next
    case 2
    then show ?thesis by (simp add: getSubstring_def)
  next
    case 3
    have "getSubstring (c # d # rest) st en =
        (case getSubstring_fast (c # d # rest) 0 st en of Some r \<Rightarrow> r
         | None \<Rightarrow> getSubstring_general (c # d # rest) 0 st en [])"
      by (simp only: getSubstring_def list.case)
    then show ?thesis unfolding 3 using getSubstring_multi[OF assms, of "c # d # rest"] by simp
  qed
qed


section \<open>Flush\<close>

lemma getSubstring_span:
  assumes "0 \<le> st" "st \<le> en" "en \<le> int (length (concat cs))"
  shows "getSubstring cs st en = take (nat (en - st)) (drop (nat st) (concat cs))"
    and "length (getSubstring cs st en) = nat (en - st)"
proof -
  from assms have "0 \<le> en" by simp
  from getSubstring_concat[OF assms(1) this, of cs] assms
  show 1: "getSubstring cs st en = take (nat (en - st)) (drop (nat st) (concat cs))"
    by (simp add: js_slice_nonneg nat_diff_distrib)
  show "length (getSubstring cs st en) = nat (en - st)"
    unfolding 1 using assms by simp
qed

text \<open>
  Claim C9, as the code has it. With the lock set, \<open>flush\<close> reports false and changes
  nothing. For a span inside the chunk store (\<open>0 \<le> from \<le> to \<le>\<close> total length) it
  reports false and changes nothing when the span is empty or the lock is set; otherwise it
  reports true, appends exactly the characters from \<open>from\<close> up to \<open>to\<close> of the
  concatenated chunks as text to the current top element, sets the confirmed cursor to
  the current position (not to \<open>to\<close>) and unsets the unconfirmed cursor.
\<close>

theorem flush_reads_span_and_moves_cursor_to_position:
  "(locked s \<longrightarrow> flush st en s = (False, s)) \<and>
   (0 \<le> st \<and> st \<le> en \<and> en \<le> int (length (concat (chunks s))) \<longrightarrow>
      flush st en s =
        (if locked s \<or> st = en then (False, s)
         else (True,
               s\<lparr>out := out s @
                     [AppendText (top_elem s)
                        (take (nat (en - st)) (drop (nat st) (concat (chunks s))))],
                 start := position s, uncorfinmed_start := None\<rparr>)))"
proof -
  have "flush st en s =
        (if locked s \<or> st = en then (False, s)
         else (True,
               s\<lparr>out := out s @
                     [AppendText (top_elem s)
                        (take (nat (en - st)) (drop (nat st) (concat (chunks s))))],
                 start := position s, uncorfinmed_start := None\<rparr>))"
    if a: "0 \<le> st" "st \<le> en" "en \<le> int (length (concat (chunks s)))"
  proof -
    note g = getSubstring_span[OF a]
    have e: "getSubstring (chunks s) st en = [] \<longleftrightarrow> st = en"
      using g(2) a by (metis length_0_conv nat_0_iff diff_ge_0_iff_ge diff_le_0_iff_le order_antisym)
    show ?thesis
    proof (cases "locked s \<or> st = en")
      case True
      then show ?thesis using e by (auto simp add: flush_def Let_def)
    next
      case False
      then show ?thesis using e by (simp add: flush_def Let_def g(1)[symmetric])
    qed
  qed
  then show ?thesis by (simp add: flush_def)
qed

theorem flush_reads_span_and_moves_cursor_to_position_witness:
  "flush 1 3
      \<lparr>position = 3, start = 0, uncorfinmed_start = Some 0, stack = [Target],
       chunks = [[97, 98], [99]], top_elem = Target, target = Target, locked = False,
       state = NORMAL, line_start = False, heading_count = 0, hr_char = None,
       hr_count = 0, modifierStack = [], flush_on_write = False, out = []\<rparr>
     = (True,
        \<lparr>position = 3, start = 3, uncorfinmed_start = None, stack = [Target],
         chunks = [[97, 98], [99]], top_elem = Target, target = Target, locked = False,
         state = NORMAL, line_start = False, heading_count = 0, hr_char = None,
         hr_count = 0, modifierStack = [], flush_on_write = False,
         out = [AppendText Target [98, 99]]\<rparr>) \<and>
   flush 1 3
      \<lparr>position = 3, start = 0, uncorfinmed_start = Some 0, stack = [Target],
       chunks = [[97, 98], [99]], top_elem = Target, target = Target, locked = True,
       state = SEQUENCE_HR, line_start = False, heading_count = 0, hr_char = Some DASH,
       hr_count = 3, modifierStack = [], flush_on_write = False, out = []\<rparr>
     = (False,
        \<lparr>position = 3, start = 0, uncorfinmed_start = Some 0, stack = [Target],
         chunks = [[97, 98], [99]], top_elem = Target, target = Target, locked = True,
         state = SEQUENCE_HR, line_start = False, heading_count = 0, hr_char = Some DASH,
         hr_count = 3, modifierStack = [], flush_on_write = False, out = []\<rparr>)"
proof -
  let ?s = "\<lparr>position = 3, start = 0, uncorfinmed_start = Some 0, stack = [Target],
       chunks = [[97, 98], [99]], top_elem = Target, target = Target, locked = False,
       state = NORMAL, line_start = False, heading_count = 0, hr_char = None,
       hr_count = 0, modifierStack = [], flush_on_write = False, out = []\<rparr>"
  let ?t = "\<lparr>position = 3, start = 0, uncorfinmed_start = Some 0, stack = [Target],
       chunks = [[97, 98], [99]], top_elem = Target, target = Target, locked = True,
       state = SEQUENCE_HR, line_start = False, heading_count = 0, hr_char = Some DASH,
       hr_count = 3, modifierStack = [], flush_on_write = False, out = []\<rparr>"
  have 1: "0 \<le> (1::int) \<and> (1::int) \<le> 3 \<and> 3 \<le> int (length (concat (chunks ?s)))" by simp
  have 2: "locked ?t" by simp
  have 3: "nat (3 - 1) = Suc (Suc 0)" by simp
  from flush_reads_span_and_moves_cursor_to_position[of ?s 1 3, THEN conjunct2, rule_format, OF 1]
       flush_reads_span_and_moves_cursor_to_position[of ?t 1 3, THEN conjunct1, rule_format, OF 2]
  show ?thesis by (simp add: 3)
qed


text \<open>
  The claim fails on a call whose \<open>to\<close> is not the current position: after \<open>"ab"\<close> has been
  consumed, \<open>flush(0, 1)\<close> appends \<open>"a"\<close> and moves the confirmed cursor to 2, not to 1.
\<close>

theorem flush_moves_cursor_to_end_counterexample:
  "map_sum id (\<lambda>s. (position s, start s, fst (flush 0 1 s), start (snd (flush 0 1 s)),
                     out (snd (flush 0 1 s))))
      (write_chunk [97, 98] (new_LWMD False))
     = Inr (2, 0, True, 2, [AppendText Target [97]])"
  by code_simp

section \<open>The heading recogniser\<close>

lemma line_start_False_same: "\<not> line_start s \<Longrightarrow> s\<lparr>line_start := False\<rparr> = s"
  by (cases s) simp

lemma heading_entry:
  assumes "state s = NORMAL" "line_start s"
  shows "process_char HASH s =
     Inr ((flush_default s)\<lparr>locked := True, state := SEQUENCE_HEADING, heading_count := 1,
            uncorfinmed_start := Some (position s), line_start := False,
            position := position s + 1\<rparr>)"
  using assms
  by (simp add: process_char_def switch_state_def case_NORMAL_def Let_def after_switch_not_newline)

lemma heading_more_one:
  assumes "state s = SEQUENCE_HEADING" "\<not> line_start s" "uncorfinmed_start s = Some u"
  shows "process_char HASH s =
     Inr (s\<lparr>heading_count := heading_count s + 1, uncorfinmed_start := Some (u + 1),
            position := position s + 1\<rparr>)"
  using assms
  by (simp add: process_char_def switch_state_def case_SEQUENCE_HEADING_def Let_def
        after_switch_not_newline line_start_False_same)

lemma heading_more:
  assumes "state s = SEQUENCE_HEADING" "\<not> line_start s" "uncorfinmed_start s = Some u"
  shows "write_loop (replicate n HASH) s =
     Inr (s\<lparr>heading_count := heading_count s + int n, uncorfinmed_start := Some (u + int n),
            position := position s + int n\<rparr>)"
  using assms
proof (induction n arbitrary: s u)
  case 0
  then show ?case by (cases s) simp
next
  case (Suc n)
  let ?s1 = "s\<lparr>heading_count := heading_count s + 1, uncorfinmed_start := Some (u + 1),
            position := position s + 1\<rparr>"
  have "write_loop (replicate (Suc n) HASH) s = write_loop (replicate n HASH) ?s1"
    using heading_more_one[OF Suc.prems] by simp
  also have "\<dots> = Inr (?s1\<lparr>heading_count := heading_count ?s1 + int n,
       uncorfinmed_start := Some (u + 1 + int n), position := position ?s1 + int n\<rparr>)"
    using Suc.prems by (intro Suc.IH) simp_all
  finally show ?case by (simp add: algebra_simps)
qed

lemma heading_run:
  assumes "state s = NORMAL" "line_start s"
  shows "write_loop (replicate (Suc n) HASH) s =
     Inr ((flush_default s)\<lparr>locked := True, state := SEQUENCE_HEADING,
            heading_count := 1 + int n,
            uncorfinmed_start := Some (position s + int n), line_start := False,
            position := position s + 1 + int n\<rparr>)"
proof -
  let ?s1 = "(flush_default s)\<lparr>locked := True, state := SEQUENCE_HEADING, heading_count := 1,
            uncorfinmed_start := Some (position s), line_start := False,
            position := position s + 1\<rparr>"
  have "write_loop (replicate (Suc n) HASH) s = write_loop (replicate n HASH) ?s1"
    using heading_entry[OF assms] by simp
  also have "\<dots> = Inr (?s1\<lparr>heading_count := heading_count ?s1 + int n,
       uncorfinmed_start := Some (position s + int n), position := position ?s1 + int n\<rparr>)"
    by (intro heading_more) simp_all
  finally show ?thesis by simp
qed

lemma flush_default_empty_span:
  assumes "0 \<le> position s" "position s \<le> start s"
  shows "flush_default s = s"
proof -
  have "getSubstring (chunks s) (start s) (position s) = []"
    using assms by (simp add: getSubstring_concat js_slice_empty)
  then show ?thesis by (simp add: flush_default_def flush_def)
qed

lemma heading_confirm_space:
  assumes "state s = SEQUENCE_HEADING" "\<not> line_start s" "uncorfinmed_start s = Some u"
  shows "process_char SPACE s =
     Inr (s\<lparr>state := NORMAL, locked := False, uncorfinmed_start := None, start := u + 2,
            out := out s @ [OpenBlock (top_elem s) (Heading (min 6 (heading_count s)))],
            stack := stack s @ [Heading (min 6 (heading_count s))],
            top_elem := Heading (min 6 (heading_count s)),
            position := position s + 1\<rparr>)"
  using assms
  by (simp add: process_char_def switch_state_def case_SEQUENCE_HEADING_def Let_def
        after_switch_not_newline line_start_False_same up_def)

lemma heading_confirm_newline:
  assumes "state s = SEQUENCE_HEADING" "uncorfinmed_start s = Some u"
    "0 \<le> position s" "position s \<le> u + 2" "0 < heading_count s" "stack s \<noteq> []"
  shows "process_char NEWLINE s =
     Inr (s\<lparr>state := NORMAL, locked := False, uncorfinmed_start := None, start := u + 2,
            out := out s @ [OpenBlock (top_elem s) (Heading (min 6 (heading_count s))), CloseBlock],
            line_start := True, modifierStack := [], heading_count := 0,
            top_elem := last (stack s),
            position := position s + 1\<rparr>)"
proof -
  let ?h = "Heading (min 6 (heading_count s))"
  let ?s1 = "s\<lparr>state := NORMAL, locked := False, uncorfinmed_start := None, start := u + 2,
            out := out s @ [OpenBlock (top_elem s) ?h],
            stack := stack s @ [?h], top_elem := ?h\<rparr>"
  have sw: "switch_state NEWLINE s = Inr ?s1"
    using assms by (simp add: switch_state_def case_SEQUENCE_HEADING_def Let_def up_def)
  let ?s2 = "?s1\<lparr>line_start := True, modifierStack := []\<rparr>"
  have fl: "flush_default ?s2 = ?s2"
    using assms by (intro flush_default_empty_span) simp_all
  have dn: "down ?s2 = ?s2\<lparr>stack := stack s, top_elem := last (stack s),
      out := out s @ [OpenBlock (top_elem s) ?h, CloseBlock]\<rparr>"
    using assms by (simp add: down_def)
  show ?thesis
    using assms by (simp add: process_char_def sw after_switch_def Let_def fl dn)
qed


lemma flush_default_start:
  "start (flush_default s) = start s \<or> start (flush_default s) = position s"
  by (simp add: flush_default_def flush_def Let_def)

text \<open>
  In the Normal state at a line start, a run of \<open>k > 0\<close> heading markers followed by one
  other character \<open>c\<close>: the state after \<open>c\<close>.
\<close>

lemma heading_run_then_char:
  assumes "state s = NORMAL" and "line_start s" and "0 < k" and "c \<noteq> HASH"
    and "0 \<le> position s" and "stack s \<noteq> []"
  shows "\<exists>s'. write_loop (replicate k HASH @ [c]) s = Inr s' \<and>
      state s' = NORMAL \<and> \<not> locked s' \<and> position s' = position s + int k + 1 \<and>
      (if c = SPACE then
         out s' = out (flush_default s) @ [OpenBlock (top_elem s) (Heading (min 6 (int k)))] \<and>
         stack s' = stack s @ [Heading (min 6 (int k))] \<and>
         top_elem s' = Heading (min 6 (int k)) \<and>
         heading_count s' = int k \<and> start s' = position s'
       else if c = NEWLINE then
         out s' = out (flush_default s) @
                    [OpenBlock (top_elem s) (Heading (min 6 (int k))), CloseBlock] \<and>
         stack s' = stack s \<and> top_elem s' = last (stack s) \<and>
         heading_count s' = 0 \<and> start s' = position s'
       else
         out s' = out (flush_default s) \<and> stack s' = stack s \<and> top_elem s' = top_elem s \<and>
         heading_count s' = 0 \<and> start s' = start (flush_default s) \<and>
         (start s' = start s \<or> start s' = position s))"
proof -
  from \<open>0 < k\<close> obtain n where k: "k = Suc n" by (cases k) simp_all
  let ?s2 = "(flush_default s)\<lparr>locked := True, state := SEQUENCE_HEADING,
            heading_count := 1 + int n,
            uncorfinmed_start := Some (position s + int n), line_start := False,
            position := position s + 1 + int n\<rparr>"
  have run: "write_loop (replicate k HASH @ [c]) s = process_char c ?s2"
    unfolding k write_loop_append heading_run[OF assms(1,2)]
    by (simp split: sum.splits)
  have st: "state ?s2 = SEQUENCE_HEADING" "\<not> line_start ?s2"
    "uncorfinmed_start ?s2 = Some (position s + int n)" by simp_all
  consider (space) "c = SPACE" | (newline) "c = NEWLINE" | (other) "c \<noteq> SPACE" "c \<noteq> NEWLINE"
    by blast
  then show ?thesis
  proof cases
    case space
    show ?thesis
      by (subst run) (simp add: space heading_confirm_space[OF st] k)
  next
    case newline
    have "process_char NEWLINE ?s2 = Inr (?s2\<lparr>state := NORMAL, locked := False, uncorfinmed_start := None,
            start := position s + int n + 2,
            out := out ?s2 @ [OpenBlock (top_elem ?s2) (Heading (min 6 (heading_count ?s2))), CloseBlock],
            line_start := True, modifierStack := [], heading_count := 0,
            top_elem := last (stack ?s2),
            position := position ?s2 + 1\<rparr>)"
      using assms by (intro heading_confirm_newline) simp_all
    then show ?thesis
      by (subst run) (simp add: newline k)
  next
    case other
    show ?thesis
      using other assms(4) st flush_default_start[of s]
      by (subst run) (simp add: heading_abort k)
  qed
qed

section \<open>The rule recogniser\<close>

lemma emits_no_rule:
  assumes "emits P s s'" "\<And>c. P c \<Longrightarrow> \<not> is_rule c"
  shows "filter is_rule (out s') = filter is_rule (out s)"
proof -
  from emitsE[OF assms(1)] obtain ys where "out s' = out s @ ys" "list_all P ys" by blast
  moreover from this assms(2) have "filter is_rule ys = []"
    by (auto simp add: list_all_iff filter_empty_conv)
  ultimately show ?thesis by simp
qed


lemma not_opens_no_rule: "\<not> opens_element c \<Longrightarrow> \<not> is_rule c"
  by (cases c) simp_all


lemma rules_after_switch [simp]:
  "filter is_rule (out (after_switch c s)) = filter is_rule (out s)"
  by (rule emits_no_rule[OF emits_after_switch not_opens_no_rule])











section \<open>Streaming invariance\<close>

subsection \<open>The chunk list does not matter\<close>

lemma write_chunk_feed: "write_chunk chunk s = feed chunk (s\<lparr>chunks := chunks s @ [chunk]\<rparr>)"
  by (simp add: write_chunk_def feed_def)

lemma nonneg_flush_default: "nonneg s \<Longrightarrow> nonneg (flush_default s)"
  by (simp add: nonneg_def flush_default_def flush_def Let_def)

lemma case_frame [simp]:
  "position (case_NORMAL c s) = position s"
  "chunks (case_NORMAL c s) = chunks s"
  "flush_on_write (case_NORMAL c s) = flush_on_write s"
  "position (case_SEQUENCE_HR c s) = position s"
  "chunks (case_SEQUENCE_HR c s) = chunks s"
  "flush_on_write (case_SEQUENCE_HR c s) = flush_on_write s"
  "position (case_SEQUENCE_HEADING c s) = position s"
  "chunks (case_SEQUENCE_HEADING c s) = chunks s"
  "flush_on_write (case_SEQUENCE_HEADING c s) = flush_on_write s"
  by (simp_all add: case_NORMAL_def case_SEQUENCE_HR_def case_SEQUENCE_HEADING_def Let_def
        split: option.splits)

lemma case_SEQUENCE_MODIFIER_frame:
  "case_SEQUENCE_MODIFIER c s = Inr s' \<Longrightarrow>
   position s' = position s \<and> chunks s' = chunks s \<and> flush_on_write s' = flush_on_write s \<and>
   start s' = start s \<and> out s' = out s"
  by (auto simp add: case_SEQUENCE_MODIFIER_def Let_def split: if_splits)

lemma switch_state_frame:
  "switch_state c s = Inr s' \<Longrightarrow>
   position s' = position s \<and> chunks s' = chunks s \<and> flush_on_write s' = flush_on_write s"
  by (cases "state s") (auto simp add: switch_state_def dest: case_SEQUENCE_MODIFIER_frame)

lemma process_char_frame:
  "process_char c s = Inr s' \<Longrightarrow>
   position s' = position s + 1 \<and> chunks s' = chunks s \<and> flush_on_write s' = flush_on_write s"
  by (auto simp add: process_char_def split: sum.splits dest: switch_state_frame)

lemma write_loop_frame:
  "write_loop cs s = Inr s' \<Longrightarrow>
   position s' = position s + int (length cs) \<and> chunks s' = chunks s \<and>
   flush_on_write s' = flush_on_write s"
proof (induction cs arbitrary: s)
  case Nil
  then show ?case by simp
next
  case (Cons c cs)
  then obtain s1 where 1: "process_char c s = Inr s1" and 2: "write_loop cs s1 = Inr s'"
    by (auto split: sum.splits)
  from Cons.IH[OF 2] process_char_frame[OF 1] show ?case by simp
qed

lemma nonneg_case_NORMAL: "nonneg s \<Longrightarrow> nonneg (case_NORMAL c s)"
  using nonneg_flush_default[of s]
  by (simp add: case_NORMAL_def Let_def nonneg_def)

lemma nonneg_case_SEQUENCE_HR: "nonneg s \<Longrightarrow> nonneg (case_SEQUENCE_HR c s)"
  using nonneg_flush_default[of "s\<lparr>state := NORMAL, locked := False\<rparr>"]
  by (simp add: case_SEQUENCE_HR_def Let_def nonneg_def split: option.splits)

lemma nonneg_case_SEQUENCE_HEADING: "nonneg s \<Longrightarrow> nonneg (case_SEQUENCE_HEADING c s)"
  by (simp add: case_SEQUENCE_HEADING_def Let_def nonneg_def)

lemma nonneg_case_SEQUENCE_MODIFIER:
  "nonneg s \<Longrightarrow> case_SEQUENCE_MODIFIER c s = Inr s' \<Longrightarrow> nonneg s'"
  by (auto simp add: case_SEQUENCE_MODIFIER_def Let_def nonneg_def split: if_splits)

lemma nonneg_switch_state: "nonneg s \<Longrightarrow> switch_state c s = Inr s' \<Longrightarrow> nonneg s'"
  by (cases "state s")
     (auto simp add: switch_state_def nonneg_case_NORMAL nonneg_case_SEQUENCE_HR
        nonneg_case_SEQUENCE_HEADING nonneg_case_SEQUENCE_MODIFIER)

lemma nonneg_after_switch: "nonneg s \<Longrightarrow> nonneg (after_switch c s)"
  using nonneg_flush_default[of "s\<lparr>line_start := True, modifierStack := []\<rparr>"]
  by (simp add: after_switch_def Let_def nonneg_def)

lemma nonneg_process_char: "nonneg s \<Longrightarrow> process_char c s = Inr s' \<Longrightarrow> nonneg s'"
  by (auto simp add: process_char_def split: sum.splits
        intro: nonneg_after_switch nonneg_switch_state)

lemma nonneg_write_loop: "nonneg s \<Longrightarrow> write_loop cs s = Inr s' \<Longrightarrow> nonneg s'"
  by (induction cs arbitrary: s) (auto split: sum.splits dest: nonneg_process_char)

lemma rechunk_sel [simp]:
  "position (rechunk C s) = position s"
  "start (rechunk C s) = start s"
  "uncorfinmed_start (rechunk C s) = uncorfinmed_start s"
  "stack (rechunk C s) = stack s"
  "chunks (rechunk C s) = C"
  "top_elem (rechunk C s) = top_elem s"
  "target (rechunk C s) = target s"
  "locked (rechunk C s) = locked s"
  "state (rechunk C s) = state s"
  "line_start (rechunk C s) = line_start s"
  "heading_count (rechunk C s) = heading_count s"
  "hr_char (rechunk C s) = hr_char s"
  "hr_count (rechunk C s) = hr_count s"
  "modifierStack (rechunk C s) = modifierStack s"
  "flush_on_write (rechunk C s) = flush_on_write s"
  "out (rechunk C s) = out s"
  by (simp_all add: rechunk_def)

lemma rechunk_upd [simp]:
  "(rechunk C s)\<lparr>position := a1\<rparr> = rechunk C (s\<lparr>position := a1\<rparr>)"
  "(rechunk C s)\<lparr>start := a2\<rparr> = rechunk C (s\<lparr>start := a2\<rparr>)"
  "(rechunk C s)\<lparr>uncorfinmed_start := a3\<rparr> = rechunk C (s\<lparr>uncorfinmed_start := a3\<rparr>)"
  "(rechunk C s)\<lparr>stack := a4\<rparr> = rechunk C (s\<lparr>stack := a4\<rparr>)"
  "(rechunk C s)\<lparr>top_elem := a5\<rparr> = rechunk C (s\<lparr>top_elem := a5\<rparr>)"
  "(rechunk C s)\<lparr>locked := a6\<rparr> = rechunk C (s\<lparr>locked := a6\<rparr>)"
  "(rechunk C s)\<lparr>state := a7\<rparr> = rechunk C (s\<lparr>state := a7\<rparr>)"
  "(rechunk C s)\<lparr>line_start := a8\<rparr> = rechunk C (s\<lparr>line_start := a8\<rparr>)"
  "(rechunk C s)\<lparr>heading_count := a9\<rparr> = rechunk C (s\<lparr>heading_count := a9\<rparr>)"
  "(rechunk C s)\<lparr>hr_char := a10\<rparr> = rechunk C (s\<lparr>hr_char := a10\<rparr>)"
  "(rechunk C s)\<lparr>hr_count := a11\<rparr> = rechunk C (s\<lparr>hr_count := a11\<rparr>)"
  "(rechunk C s)\<lparr>modifierStack := a12\<rparr> = rechunk C (s\<lparr>modifierStack := a12\<rparr>)"
  "(rechunk C s)\<lparr>out := a13\<rparr> = rechunk C (s\<lparr>out := a13\<rparr>)"
  by (simp_all add: rechunk_def)

lemma rechunk_if: "(if b then rechunk C x else rechunk C y) = rechunk C (if b then x else y)"
  by simp

lemma flush_rechunk:
  assumes "getSubstring C a b = getSubstring (chunks s) a b"
  shows "snd (flush a b (rechunk C s)) = rechunk C (snd (flush a b s))"
  using assms by (simp add: flush_def Let_def)

lemma flush_default_rechunk:
  assumes "same_reads (chunks s) C (position s)" "0 \<le> start s"
  shows "flush_default (rechunk C s) = rechunk C (flush_default s)"
  using assms by (simp add: flush_default_def flush_rechunk same_reads_def)

lemma up_rechunk: "up w (rechunk C s) = rechunk C (up w s)"
  by (simp add: up_def)

lemma down_rechunk: "down (rechunk C s) = rechunk C (down s)"
  by (simp add: down_def)

lemma case_NORMAL_rechunk:
  assumes "same_reads (chunks s) C (position s)" "nonneg s"
  shows "case_NORMAL c (rechunk C s) = rechunk C (case_NORMAL c s)"
  using assms
  by (simp add: case_NORMAL_def Let_def flush_default_rechunk nonneg_def)

lemma case_SEQUENCE_HR_rechunk:
  assumes "same_reads (chunks s) C (position s)" "nonneg s"
  shows "case_SEQUENCE_HR c (rechunk C s) = rechunk C (case_SEQUENCE_HR c s)"
  using assms
  by (simp add: case_SEQUENCE_HR_def Let_def flush_default_rechunk nonneg_def
        split: option.splits)

lemma case_SEQUENCE_HEADING_rechunk:
  "case_SEQUENCE_HEADING c (rechunk C s) = rechunk C (case_SEQUENCE_HEADING c s)"
  by (simp add: case_SEQUENCE_HEADING_def Let_def up_rechunk)

lemma case_SEQUENCE_MODIFIER_rechunk:
  "case_SEQUENCE_MODIFIER c (rechunk C s) = map_sum id (rechunk C) (case_SEQUENCE_MODIFIER c s)"
  by (simp add: case_SEQUENCE_MODIFIER_def Let_def)

lemma switch_state_rechunk:
  assumes "same_reads (chunks s) C (position s)" "nonneg s"
  shows "switch_state c (rechunk C s) = map_sum id (rechunk C) (switch_state c s)"
  using assms
  by (cases "state s")
     (simp_all add: switch_state_def case_NORMAL_rechunk case_SEQUENCE_HR_rechunk
        case_SEQUENCE_HEADING_rechunk case_SEQUENCE_MODIFIER_rechunk)

lemma after_switch_rechunk:
  assumes "same_reads (chunks s) C (position s)" "nonneg s"
  shows "after_switch c (rechunk C s) = rechunk C (after_switch c s)"
  using assms
  by (simp add: after_switch_def Let_def flush_default_rechunk down_rechunk nonneg_def)

lemma process_char_rechunk:
  assumes "same_reads (chunks s) C (position s)" "nonneg s"
  shows "process_char c (rechunk C s) = map_sum id (rechunk C) (process_char c s)"
proof (cases "switch_state c s")
  case (Inl e)
  then show ?thesis
    using switch_state_rechunk[OF assms, of c] by (simp add: process_char_def)
next
  case (Inr s1)
  from switch_state_frame[OF Inr] assms(1)
  have 1: "same_reads (chunks s1) C (position s1)" by simp
  have 2: "nonneg s1" by (rule nonneg_switch_state[OF assms(2) Inr])
  show ?thesis
    using switch_state_rechunk[OF assms, of c] Inr after_switch_rechunk[OF 1 2, of c]
    by (simp add: process_char_def)
qed

lemma write_loop_rechunk:
  assumes "\<And>n. position s \<le> n \<Longrightarrow> n \<le> position s + int (length cs) \<Longrightarrow>
             same_reads (chunks s) C n"
    and "nonneg s"
  shows "write_loop cs (rechunk C s) = map_sum id (rechunk C) (write_loop cs s)"
  using assms
proof (induction cs arbitrary: s)
  case Nil
  then show ?case by simp
next
  case (Cons c cs)
  have sr: "same_reads (chunks s) C (position s)" by (rule Cons.prems(1)) simp_all
  note pc = process_char_rechunk[OF sr Cons.prems(2), of c]
  show ?case
  proof (cases "process_char c s")
    case (Inl e)
    with pc show ?thesis by simp
  next
    case (Inr s1)
    note fr = process_char_frame[OF Inr]
    have "write_loop cs (rechunk C s1) = map_sum id (rechunk C) (write_loop cs s1)"
    proof (rule Cons.IH)
      show "nonneg s1" by (rule nonneg_process_char[OF Cons.prems(2) Inr])
      fix n assume "position s1 \<le> n" "n \<le> position s1 + int (length cs)"
      then show "same_reads (chunks s1) C n" using fr Cons.prems(1)[of n] by simp
    qed
    with pc Inr show ?thesis by (simp add: id_def)
  qed
qed

lemma same_reads_prefix:
  assumes "concat C' = concat C @ Y" "0 \<le> n" "n \<le> int (length (concat C))"
  shows "same_reads C C' n"
  unfolding same_reads_def
proof (intro allI impI)
  fix a :: int assume a: "0 \<le> a"
  define i where "i = nat a"
  define j where "j = nat n"
  have ij: "a = int i" "n = int j" using a assms(2) by (simp_all add: i_def j_def)
  have j: "j \<le> length (concat C)" using assms(3) by (simp add: j_def)
  have "getSubstring C' a n = js_slice (concat C @ Y) (int i) (int j)"
    using getSubstring_concat[OF a assms(2), of C'] by (simp only: assms(1) ij)
  also have "\<dots> = js_slice (concat C) (int i) (int j)"
    by (rule js_slice_append_left[OF j])
  also have "\<dots> = getSubstring C a n"
    using getSubstring_concat[OF a assms(2), of C] by (simp only: ij)
  finally show "getSubstring C' a n = getSubstring C a n" .
qed

lemma nonneg_flushW: "nonneg s \<Longrightarrow> nonneg (if flush_on_write s then flush_default s else s)"
  by (simp add: nonneg_flush_default)

lemma feed_frame:
  "feed f s = Inr s' \<Longrightarrow>
   position s' = position s + int (length f) \<and> chunks s' = chunks s \<and>
   flush_on_write s' = flush_on_write s"
  by (auto simp add: feed_def split: sum.splits if_splits dest: write_loop_frame)

lemma nonneg_feed: "nonneg s \<Longrightarrow> feed f s = Inr s' \<Longrightarrow> nonneg s'"
  by (auto simp add: feed_def nonneg_flush_default split: sum.splits if_splits
        dest: nonneg_write_loop)

lemma feed_rechunk:
  assumes "\<And>n. position s \<le> n \<Longrightarrow> n \<le> position s + int (length f) \<Longrightarrow>
             same_reads (chunks s) C n"
    and "nonneg s"
  shows "feed f (rechunk C s) = map_sum id (rechunk C) (feed f s)"
proof (cases "write_loop f s")
  case (Inl e)
  then show ?thesis
    using write_loop_rechunk[OF assms, of f] by (simp add: feed_def)
next
  case (Inr s1)
  note fr = write_loop_frame[OF Inr]
  have 1: "same_reads (chunks s1) C (position s1)" using fr assms(1)[of "position s1"] by simp
  have 2: "nonneg s1" by (rule nonneg_write_loop[OF assms(2) Inr])
  then have "0 \<le> start s1" by (simp add: nonneg_def)
  from flush_default_rechunk[OF 1 this] show ?thesis
    using write_loop_rechunk[OF assms, of f] Inr by (simp add: feed_def)
qed

lemma write_all_rechunk:
  assumes "nonneg t" "position t = int (length (concat (chunks t)))"
    "T = concat (chunks t) @ concat fs"
  shows "feed_all fs (rechunk [T] t) = map_sum id (rechunk [T]) (write_all fs t) \<and>
         (\<forall>t'. write_all fs t = Inr t' \<longrightarrow>
            nonneg t' \<and> position t' = int (length T) \<and> concat (chunks t') = T)"
  using assms
proof (induction fs arbitrary: t)
  case Nil
  then show ?case by simp
next
  case (Cons f fs)
  let ?t1 = "t\<lparr>chunks := chunks t @ [f]\<rparr>"
  have r1: "rechunk [T] ?t1 = rechunk [T] t" by (simp add: rechunk_def)
  have n1: "nonneg ?t1" using Cons.prems(1) by (simp add: nonneg_def)
  have c1: "concat [T] = concat (chunks ?t1) @ concat fs" using Cons.prems(3) by simp
  have sr: "same_reads (chunks ?t1) [T] n"
    if "position ?t1 \<le> n" "n \<le> position ?t1 + int (length f)" for n
  proof (rule same_reads_prefix[OF c1])
    show "0 \<le> n" using that(1) Cons.prems(1) by (simp add: nonneg_def)
    show "n \<le> int (length (concat (chunks ?t1)))" using that(2) Cons.prems(2) by simp
  qed
  have fd: "feed f (rechunk [T] t) = map_sum id (rechunk [T]) (feed f ?t1)"
    using feed_rechunk[of ?t1 f "[T]", OF sr n1] unfolding r1 by simp
  show ?case
  proof (cases "feed f ?t1")
    case (Inl e)
    with fd show ?thesis by (simp add: write_chunk_feed)
  next
    case (Inr t2)
    note fr = feed_frame[OF Inr]
    have n2: "nonneg t2" by (rule nonneg_feed[OF n1 Inr])
    have p2: "position t2 = int (length (concat (chunks t2)))"
      using fr Cons.prems(2) by simp
    have T2: "T = concat (chunks t2) @ concat fs" using fr Cons.prems(3) by simp
    from Cons.IH[OF n2 p2 T2] fd Inr show ?thesis by (simp add: write_chunk_feed)
  qed
qed

lemma out_clearState [simp]: "out (clearState s) = out s"
  by (simp add: clearState_def)

lemma end_stream_rechunk:
  assumes "same_reads (chunks s) C (position s)" "nonneg s"
  shows "out (end_stream (rechunk C s)) = out (end_stream s)"
proof -
  have g: "getSubstring C (num (uncorfinmed_start s)) (position s) =
           getSubstring (chunks s) (num (uncorfinmed_start s)) (position s)"
    using assms by (simp add: same_reads_def nonneg_def)
  have "snd (flush (num (uncorfinmed_start s)) (position s) (rechunk C (s\<lparr>locked := False\<rparr>))) =
        rechunk C (snd (flush (num (uncorfinmed_start s)) (position s) (s\<lparr>locked := False\<rparr>)))"
    by (rule flush_rechunk) (simp add: g)
  then show ?thesis by (simp add: end_stream_def)
qed

lemma stream_finish: "map_sum id out (stream fs s) = finish (write_all fs s)"
  by (cases "write_all fs s") (simp_all add: stream_def finish_def)

lemma stream_as_feed_all:
  assumes "nonneg t" "chunks t = []" "position t = 0"
  shows "map_sum id out (stream fs t) = finish (feed_all fs (rechunk [concat fs] t))"
proof -
  let ?T = "concat fs"
  have p: "position t = int (length (concat (chunks t)))" "?T = concat (chunks t) @ concat fs"
    using assms by simp_all
  note A = write_all_rechunk[OF assms(1) p]
  show ?thesis
  proof (cases "write_all fs t")
    case (Inl e)
    with A show ?thesis by (simp add: stream_finish finish_def)
  next
    case (Inr t')
    with A have t': "nonneg t'" "position t' = int (length ?T)" "concat (chunks t') = ?T"
      and f: "feed_all fs (rechunk [?T] t) = Inr (rechunk [?T] t')" by simp_all
    have "same_reads (chunks t') [?T] (position t')"
      by (rule same_reads_prefix[where Y="[]"]) (simp_all add: t')
    from end_stream_rechunk[OF this t'(1)] show ?thesis
      by (simp add: stream_finish finish_def f Inr)
  qed
qed

lemma stream_single_as_feed:
  assumes "chunks t = []"
  shows "map_sum id out (stream [S] t) = finish (feed S (rechunk [S] t))"
proof -
  have "t\<lparr>chunks := chunks t @ [S]\<rparr> = rechunk [S] t" using assms by (simp add: rechunk_def)
  then show ?thesis
    by (cases "feed S (rechunk [S] t)")
       (simp_all add: stream_def finish_def write_chunk_feed)
qed

subsection \<open>Merging text and flushing later\<close>

lemma merge_text_snoc: "merge_text (xs @ [c]) = emit (merge_text xs) c"
  by (simp add: merge_text_def)

lemma merge_text_append: "merge_text (xs @ ys) = foldl emit (merge_text xs) ys"
  by (simp add: merge_text_def)

lemma merge_text_append_cong:
  "merge_text xs = merge_text ys \<Longrightarrow> merge_text (xs @ zs) = merge_text (ys @ zs)"
  by (simp add: merge_text_append)

lemma emit_emit_text:
  "emit (emit L (AppendText e a)) (AppendText e b) = emit L (AppendText e (a @ b))"
proof (cases "L = []")
  case True
  then show ?thesis by (simp add: emit_def)
next
  case False
  then obtain L' p where L: "L = L' @ [p]" by (metis rev_exhaust)
  show ?thesis
  proof (cases p)
    case (AppendText e' t')
    then show ?thesis unfolding L by (simp add: emit_def butlast_append)
  qed (simp_all add: L emit_def butlast_append)
qed

lemma js_slice_nonempty:
  assumes "0 \<le> a" "a < b" "b \<le> int (length T)"
  shows "js_slice T a b \<noteq> []"
proof -
  from assms have "nat a < nat b" "nat a < length T" by linarith+
  then show ?thesis using assms by (simp add: js_slice_nonneg)
qed

lemma js_slice_join:
  assumes "0 \<le> a" "a \<le> b" "b \<le> c" "c \<le> int (length T)"
  shows "js_slice T a b @ js_slice T b c = js_slice T a c"
proof -
  define i where "i = nat a"
  define j where "j = nat (b - a)"
  define k where "k = nat (c - b)"
  have e: "a = int i" "b = int (i + j)" "c = int (i + j + k)"
    using assms by (simp_all add: i_def j_def k_def)
  have "take j (drop i T) @ take k (drop (i + j) T) = take (j + k) (drop i T)"
    by (simp add: take_add add.commute)
  then show ?thesis unfolding e by (simp only: js_slice_nat) (simp add: add.assoc)
qed

lemma flush_default_unfold:
  assumes "nonneg r" "position r \<le> int (length (concat (chunks r)))"
  shows "flush_default r =
     (if locked r \<or> position r \<le> start r then r
      else r\<lparr>out := out r @ [AppendText (top_elem r)
                                (js_slice (concat (chunks r)) (start r) (position r))],
             start := position r, uncorfinmed_start := None\<rparr>)"
proof -
  have n: "0 \<le> start r" "0 \<le> position r" using assms(1) by (simp_all add: nonneg_def)
  have g: "getSubstring (chunks r) (start r) (position r) =
           js_slice (concat (chunks r)) (start r) (position r)"
    by (rule getSubstring_concat[OF n])
  show ?thesis
  proof (cases "position r \<le> start r")
    case True
    then have "js_slice (concat (chunks r)) (start r) (position r) = []"
      using n by (simp add: js_slice_empty)
    with True show ?thesis by (simp add: flush_default_def flush_def g)
  next
    case False
    then have "js_slice (concat (chunks r)) (start r) (position r) \<noteq> []"
      using n assms(2) by (intro js_slice_nonempty) simp_all
    with False show ?thesis by (simp add: flush_default_def flush_def g Let_def)
  qed
qed

lemma lag_nonneg_right: "lag r t \<Longrightarrow> 0 \<le> start t \<and> 0 \<le> position t"
  by (auto simp add: lag_def nonneg_def core_eq_def)

lemma flush_default_unfold_right:
  assumes "lag r t" "position r \<le> int (length (concat (chunks r)))"
  shows "flush_default t =
     (if locked r \<or> position r \<le> start t then t
      else t\<lparr>out := out t @ [AppendText (top_elem r)
                                (js_slice (concat (chunks r)) (start t) (position r))],
             start := position r, uncorfinmed_start := None\<rparr>)"
proof -
  have c: "position t = position r" "chunks t = chunks r" "locked t = locked r"
    "top_elem t = top_elem r"
    using assms(1) by (simp_all add: lag_def core_eq_def)
  have n: "0 \<le> start t" "0 \<le> position t" using lag_nonneg_right[OF assms(1)] by simp_all
  have g: "getSubstring (chunks r) (start t) (position r) =
           js_slice (concat (chunks r)) (start t) (position r)"
    using getSubstring_concat[OF n, of "chunks t"] by (simp add: c)
  show ?thesis
  proof (cases "position r \<le> start t")
    case True
    then have "js_slice (concat (chunks r)) (start t) (position r) = []"
      using n c by (simp add: js_slice_empty)
    with True show ?thesis by (simp add: flush_default_def flush_def g c Let_def)
  next
    case False
    then have "js_slice (concat (chunks r)) (start t) (position r) \<noteq> []"
      using n assms(2) c by (intro js_slice_nonempty) simp_all
    with False show ?thesis by (simp add: flush_default_def flush_def g Let_def c)
  qed
qed

lemma merge_pending:
  assumes "0 \<le> sr" "sr \<le> st" "st < pos" "pos \<le> int (length T)"
    and "merge_text ot =
         merge_text (orr @ (if sr < st then [AppendText e (js_slice T sr st)] else []))"
  shows "merge_text (ot @ [AppendText e (js_slice T st pos)]) =
         merge_text (orr @ [AppendText e (js_slice T sr pos)])"
proof (cases "sr < st")
  case True
  have j: "js_slice T sr st @ js_slice T st pos = js_slice T sr pos"
    using assms by (intro js_slice_join) simp_all
  have "merge_text (ot @ [AppendText e (js_slice T st pos)]) =
        emit (merge_text (orr @ [AppendText e (js_slice T sr st)])) (AppendText e (js_slice T st pos))"
    using assms(5) True by (simp add: merge_text_snoc)
  also have "\<dots> = emit (merge_text orr) (AppendText e (js_slice T sr st @ js_slice T st pos))"
    by (simp only: merge_text_snoc emit_emit_text)
  finally show ?thesis by (simp add: j merge_text_snoc)
next
  case False
  with assms have "sr = st" "merge_text ot = merge_text orr" by simp_all
  then show ?thesis by (simp add: merge_text_snoc)
qed

lemma lagD:
  assumes "lag r t"
  shows "position t = position r" "stack t = stack r" "chunks t = chunks r"
    "top_elem t = top_elem r" "target t = target r" "locked t = locked r"
    "state t = state r" "line_start t = line_start r"
    "heading_count t = heading_count r" "hr_char t = hr_char r"
    "hr_count t = hr_count r" "modifierStack t = modifierStack r"
    "flush_on_write t = flush_on_write r"
    "nonneg r" "lock_inv r"
    "locked r \<Longrightarrow> uncorfinmed_start t = uncorfinmed_start r"
    "locked r \<Longrightarrow> start t = start r"
    "start r \<le> start t"
    "merge_text (out t) = merge_text (out r @ pend r (start t))"
  using assms by (auto simp add: lag_def core_eq_def)

lemma syncD:
  assumes "sync r t"
  shows "lag r t" "start t = start r" "merge_text (out t) = merge_text (out r)"
  using assms by (auto simp add: sync_def lag_def pend_def)

lemma syncI:
  assumes "core_eq r t" "nonneg r" "lock_inv r"
    "locked r \<Longrightarrow> uncorfinmed_start t = uncorfinmed_start r"
    "start t = start r" "merge_text (out t) = merge_text (out r)"
  shows "sync r t"
  using assms by (simp add: sync_def lag_def pend_def)

lemma flush_both:
  assumes "lag r t" "position r \<le> int (length (concat (chunks r)))"
  shows "sync (flush_default r) (flush_default t)"
proof -
  note d = lagD[OF assms(1)]
  note fr = flush_default_unfold[OF d(14) assms(2)]
  note ft = flush_default_unfold_right[OF assms]
  have nn: "0 \<le> start r" "0 \<le> position r" using d(14) by (simp_all add: nonneg_def)
  show ?thesis
  proof (cases "locked r \<or> position r \<le> start r")
    case True
    then have "flush_default r = r" "flush_default t = t" "start t = start r"
      using fr ft d(17,18) assms(1) by (auto simp add: lag_def)
    then show ?thesis using assms(1) by (simp add: sync_def)
  next
    case False
    then have ul: "\<not> locked r" "start r < position r" by simp_all
    let ?T = "concat (chunks r)"
    let ?X = "AppendText (top_elem r) (js_slice ?T (start r) (position r))"
    have r': "flush_default r = r\<lparr>out := out r @ [?X], start := position r,
                                     uncorfinmed_start := None\<rparr>"
      using fr False by simp
    have st: "start t \<le> position r" using assms(1) ul by (auto simp add: lag_def)
    have core: "core_eq (flush_default r) (flush_default t)"
      using assms(1) by (simp add: lag_def core_eq_def)
    have n': "nonneg (flush_default r)" by (rule nonneg_flush_default[OF d(14)])
    have l': "lock_inv (flush_default r)" using d(15) by (simp add: lock_inv_def)
    have u': "\<not> locked (flush_default r)" using ul by simp
    have m0: "merge_text (out t) =
        merge_text (out r @ (if start r < start t
                             then [AppendText (top_elem r) (js_slice ?T (start r) (start t))]
                             else []))"
      using d(19) by (simp add: pend_def)
    show ?thesis
    proof (cases "start t < position r")
      case True
      have t': "flush_default t =
          t\<lparr>out := out t @ [AppendText (top_elem r) (js_slice ?T (start t) (position r))],
            start := position r, uncorfinmed_start := None\<rparr>"
        using ft True ul by simp
      have "merge_text (out t @ [AppendText (top_elem r) (js_slice ?T (start t) (position r))]) =
            merge_text (out r @ [?X])"
        by (rule merge_pending[OF nn(1) d(18) True assms(2) m0])
      then show ?thesis
        using core n' l' u' by (intro syncI) (simp_all add: r' t')
    next
      case False
      with st have e: "start t = position r" by simp
      have t': "flush_default t = t" using ft e by simp
      have "merge_text (out t) = merge_text (out r @ [?X])"
        using m0 ul e by simp
      then show ?thesis
        using core n' l' u' e by (intro syncI) (simp_all add: r' t')
    qed
  qed
qed

lemma flush_right_only:
  assumes "lag r t" "position r \<le> int (length (concat (chunks r)))" "flush_on_write r"
  shows "lag r (flush_default t)"
proof -
  note d = lagD[OF assms(1)]
  note ft = flush_default_unfold_right[OF assms(1,2)]
  have nn: "0 \<le> start r" "0 \<le> position r" using d(14) by (simp_all add: nonneg_def)
  show ?thesis
  proof (cases "locked r \<or> position r \<le> start t")
    case True
    then have "flush_default t = t" using ft by simp
    then show ?thesis using assms(1) by simp
  next
    case False
    then have ul: "\<not> locked r" "start t < position r" by simp_all
    let ?T = "concat (chunks r)"
    have t': "flush_default t =
        t\<lparr>out := out t @ [AppendText (top_elem r) (js_slice ?T (start t) (position r))],
          start := position r, uncorfinmed_start := None\<rparr>"
      using ft False by simp
    have m0: "merge_text (out t) =
        merge_text (out r @ (if start r < start t
                             then [AppendText (top_elem r) (js_slice ?T (start r) (start t))]
                             else []))"
      using d(19) by (simp add: pend_def)
    have lt: "start r < position r" using d(18) ul by simp
    have "merge_text (out t @ [AppendText (top_elem r) (js_slice ?T (start t) (position r))]) =
          merge_text (out r @ [AppendText (top_elem r) (js_slice ?T (start r) (position r))])"
      by (rule merge_pending[OF nn(1) d(18) ul(2) assms(2) m0])
    then show ?thesis
      using assms(1,3) ul lt unfolding t'
      by (simp add: lag_def core_eq_def pend_def)
  qed
qed

subsection \<open>Every step keeps the two runs related\<close>

lemma sync_lag: "sync r t \<Longrightarrow> lag r t"
  by (simp add: sync_def)

lemma lag_locked_sync: "lag r t \<Longrightarrow> locked r \<Longrightarrow> sync r t"
  by (auto simp add: sync_def lag_def)

lemma syncE:
  assumes "sync r t"
  shows "core_eq r t" "nonneg r" "lock_inv r"
    "locked r \<Longrightarrow> uncorfinmed_start t = uncorfinmed_start r"
    "start t = start r" "merge_text (out t) = merge_text (out r)"
  using assms by (auto simp add: sync_def lag_def pend_def)

lemma core_eqD:
  assumes "core_eq r t"
  shows "position t = position r" "stack t = stack r" "chunks t = chunks r"
    "top_elem t = top_elem r" "target t = target r" "locked t = locked r"
    "state t = state r" "line_start t = line_start r"
    "heading_count t = heading_count r" "hr_char t = hr_char r"
    "hr_count t = hr_count r" "modifierStack t = modifierStack r"
    "flush_on_write t = flush_on_write r"
  using assms by (simp_all add: core_eq_def)

lemma sync_case_NORMAL:
  assumes "lag r t" "position r \<le> int (length (concat (chunks r)))"
  shows "lag (case_NORMAL c r) (case_NORMAL c t)"
proof -
  note S = flush_both[OF assms]
  note e = syncE[OF S]
  note c = core_eqD[OF e(1)]
  note d = lagD[OF assms(1)]
  have p: "position (flush_default t) = position (flush_default r)" by (rule c(1))
  have n: "0 \<le> start (flush_default r)" "0 \<le> position (flush_default r)"
    using e(2) by (simp_all add: nonneg_def)
  have sH: "sync ((flush_default r)\<lparr>locked := True, state := SEQUENCE_HEADING,
               heading_count := 1, uncorfinmed_start := Some (position (flush_default r))\<rparr>)
             ((flush_default t)\<lparr>locked := True, state := SEQUENCE_HEADING,
               heading_count := 1, uncorfinmed_start := Some (position (flush_default t))\<rparr>)"
    using c e(5,6) n
    by (intro syncI) (simp_all add: core_eq_def nonneg_def lock_inv_def del: flush_default_frame)
  have sR: "sync ((flush_default r)\<lparr>locked := True, state := SEQUENCE_HR,
               hr_char := Some c, hr_count := 1,
               uncorfinmed_start := Some (position (flush_default r))\<rparr>)
             ((flush_default t)\<lparr>locked := True, state := SEQUENCE_HR,
               hr_char := Some c, hr_count := 1,
               uncorfinmed_start := Some (position (flush_default t))\<rparr>)"
    using c e(5,6) n
    by (intro syncI) (simp_all add: core_eq_def nonneg_def lock_inv_def del: flush_default_frame)
  have sM: "sync ((flush_default r)\<lparr>state := SEQUENCE_MODIFIER,
               modifierStack := modifierStack (flush_default r) @ [(c, 1, None)],
               uncorfinmed_start := Some (position (flush_default r) + 1)\<rparr>)
             ((flush_default t)\<lparr>state := SEQUENCE_MODIFIER,
               modifierStack := modifierStack (flush_default t) @ [(c, 1, None)],
               uncorfinmed_start := Some (position (flush_default t) + 1)\<rparr>)"
    using c e(5,6) n
    by (intro syncI) (simp_all add: core_eq_def nonneg_def lock_inv_def del: flush_default_frame)
  have sC: "sync ((flush_default r)\<lparr>state := CODE,
               uncorfinmed_start := Some (position (flush_default r) + 1)\<rparr>)
             ((flush_default t)\<lparr>state := CODE,
               uncorfinmed_start := Some (position (flush_default t) + 1)\<rparr>)"
    using c e(5,6) n
    by (intro syncI) (simp_all add: core_eq_def nonneg_def lock_inv_def del: flush_default_frame)
  show ?thesis
    unfolding case_NORMAL_def Let_def d(8)
    using sync_lag[OF sH] sync_lag[OF sR] sync_lag[OF sM] sync_lag[OF sC] assms(1)
    by (simp del: flush_default_frame)
qed

lemma lag_case_SEQUENCE_HR:
  assumes "lag r t" "position r \<le> int (length (concat (chunks r)))" "state r = SEQUENCE_HR"
  shows "lag (case_SEQUENCE_HR c r) (case_SEQUENCE_HR c t)"
proof -
  note d = lagD[OF assms(1)]
  have lk: "locked r" using d(15) assms(3) by (simp add: lock_inv_def)
  note S = lag_locked_sync[OF assms(1) lk]
  note e = syncE[OF S]
  note c = core_eqD[OF e(1)]
  have n: "0 \<le> start r" "0 \<le> position r" "0 \<le> num (uncorfinmed_start r)"
    using e(2) by (simp_all add: nonneg_def)
  have u: "uncorfinmed_start t = uncorfinmed_start r" by (rule e(4)[OF lk])
  let ?r1 = "r\<lparr>state := NORMAL, locked := False\<rparr>"
  let ?t1 = "t\<lparr>state := NORMAL, locked := False\<rparr>"
  have s1: "sync ?r1 ?t1"
    using c e(5,6) n u by (intro syncI) (simp_all add: core_eq_def nonneg_def lock_inv_def)
  have more: "sync (r\<lparr>hr_count := hr_count r + 1\<rparr>) (t\<lparr>hr_count := hr_count t + 1\<rparr>)"
    using c e(3,5,6) n u by (intro syncI) (simp_all add: core_eq_def nonneg_def lock_inv_def)
  have conf: "sync (?r1\<lparr>out := out ?r1 @ [InsertVoid (top_elem ?r1) Hr], start := position ?r1,
                        hr_char := None, hr_count := 0\<rparr>)
                  (?t1\<lparr>out := out ?t1 @ [InsertVoid (top_elem ?t1) Hr], start := position ?t1,
                        hr_char := None, hr_count := 0\<rparr>)"
    using c e(5) n u merge_text_append_cong[OF e(6), of "[InsertVoid (top_elem r) Hr]"]
    by (intro syncI) (simp_all add: core_eq_def nonneg_def lock_inv_def)
  have plain: "sync (?r1\<lparr>hr_char := None, hr_count := 0\<rparr>) (?t1\<lparr>hr_char := None, hr_count := 0\<rparr>)"
    using c e(5,6) n u by (intro syncI) (simp_all add: core_eq_def nonneg_def lock_inv_def)
  have "position ?r1 \<le> int (length (concat (chunks ?r1)))" using assms(2) by simp
  note F = flush_both[OF sync_lag[OF s1] this]
  note f = syncE[OF F]
  note fc = core_eqD[OF f(1)]
  have fn: "0 \<le> start (flush_default ?r1)" "0 \<le> position (flush_default ?r1)"
    using f(2) by (simp_all add: nonneg_def)
  have hand: "sync ((flush_default ?r1)\<lparr>state := SEQUENCE_MODIFIER,
                 modifierStack := modifierStack (flush_default ?r1) @ [(h, hr_count (flush_default ?r1), None)],
                 uncorfinmed_start := Some (position (flush_default ?r1) + 1),
                 hr_char := None, hr_count := 0\<rparr>)
              ((flush_default ?t1)\<lparr>state := SEQUENCE_MODIFIER,
                 modifierStack := modifierStack (flush_default ?t1) @ [(h, hr_count (flush_default ?t1), None)],
                 uncorfinmed_start := Some (position (flush_default ?t1) + 1),
                 hr_char := None, hr_count := 0\<rparr>)" for h
    using fc f(5,6) fn
    by (intro syncI) (simp_all add: core_eq_def nonneg_def lock_inv_def del: flush_default_frame)
  show ?thesis
    unfolding case_SEQUENCE_HR_def Let_def
    using sync_lag[OF more] sync_lag[OF conf] sync_lag[OF plain] sync_lag[OF hand] c
    by (simp del: flush_default_frame split: option.splits)
qed

lemma lag_case_SEQUENCE_HEADING:
  assumes "lag r t" "state r = SEQUENCE_HEADING"
  shows "lag (case_SEQUENCE_HEADING c r) (case_SEQUENCE_HEADING c t)"
proof -
  note d = lagD[OF assms(1)]
  have lk: "locked r" using d(15) assms(2) by (simp add: lock_inv_def)
  note S = lag_locked_sync[OF assms(1) lk]
  note e = syncE[OF S]
  note c = core_eqD[OF e(1)]
  have n: "0 \<le> start r" "0 \<le> position r" "0 \<le> num (uncorfinmed_start r)"
    using e(2) by (simp_all add: nonneg_def)
  have u: "uncorfinmed_start t = uncorfinmed_start r" by (rule e(4)[OF lk])
  let ?h = "Heading (min 6 (heading_count r))"
  have more: "sync (r\<lparr>heading_count := heading_count r + 1,
                      uncorfinmed_start := Some (num (uncorfinmed_start r) + 1)\<rparr>)
                 (t\<lparr>heading_count := heading_count t + 1,
                      uncorfinmed_start := Some (num (uncorfinmed_start t) + 1)\<rparr>)"
    using c e(3,5,6) n u by (intro syncI) (simp_all add: core_eq_def nonneg_def lock_inv_def)
  have conf: "sync (r\<lparr>state := NORMAL, locked := False,
                      out := out r @ [OpenBlock (top_elem r) ?h], stack := stack r @ [?h],
                      top_elem := ?h, start := num (uncorfinmed_start r) + 2,
                      uncorfinmed_start := None\<rparr>)
                 (t\<lparr>state := NORMAL, locked := False,
                      out := out t @ [OpenBlock (top_elem t) ?h], stack := stack t @ [?h],
                      top_elem := ?h, start := num (uncorfinmed_start t) + 2,
                      uncorfinmed_start := None\<rparr>)"
    using c e(5) n u merge_text_append_cong[OF e(6), of "[OpenBlock (top_elem r) ?h]"]
    by (intro syncI) (simp_all add: core_eq_def nonneg_def lock_inv_def)
  have abort: "sync (r\<lparr>state := NORMAL, locked := False, heading_count := 0,
                       uncorfinmed_start := None\<rparr>)
                  (t\<lparr>state := NORMAL, locked := False, heading_count := 0,
                       uncorfinmed_start := None\<rparr>)"
    using c e(5,6) n u by (intro syncI) (simp_all add: core_eq_def nonneg_def lock_inv_def)
  show ?thesis
    unfolding case_SEQUENCE_HEADING_def Let_def up_def
    using sync_lag[OF more] sync_lag[OF conf] sync_lag[OF abort] c
    by simp
qed

lemma lag_case_SEQUENCE_MODIFIER:
  assumes "lag r t"
  shows "rel_sum (=) lag (case_SEQUENCE_MODIFIER c r) (case_SEQUENCE_MODIFIER c t)"
proof (cases "modifierStack r = []")
  case True
  then show ?thesis using lagD(12)[OF assms] by (simp add: case_SEQUENCE_MODIFIER_def)
next
  case False
  note d = lagD[OF assms]
  have n: "0 \<le> start r" "0 \<le> position r" "0 \<le> num (uncorfinmed_start r)"
    using d(14) by (simp_all add: nonneg_def)
  have st: "start t = start r \<or>
      (start r < start t \<and> start t \<le> position r \<and> flush_on_write r \<and> \<not> locked r)"
    using assms by (simp add: lag_def)
  have m: "merge_text (out t) = merge_text (out r @ pend r (start t))" by (rule d(19))
  have ext: "lag (r\<lparr>uncorfinmed_start := Some (num (uncorfinmed_start r) + 1), modifierStack := ms\<rparr>)
                 (t\<lparr>uncorfinmed_start := Some (num (uncorfinmed_start t) + 1), modifierStack := ms\<rparr>)"
    for ms
    using d(1-13,15,16) n st m
    by (auto simp add: lag_def core_eq_def nonneg_def lock_inv_def pend_def)
  have leave: "lag (r\<lparr>state := NORMAL, locked := False, modifierStack := ms\<rparr>)
                   (t\<lparr>state := NORMAL, locked := False, modifierStack := ms\<rparr>)"
    for ms
    using d(1-13,15) n st m
    by (auto simp add: lag_def core_eq_def nonneg_def lock_inv_def pend_def)
  show ?thesis
    using False d(1,12) ext leave
    by (simp add: case_SEQUENCE_MODIFIER_def Let_def)
qed

lemma lag_switch_state:
  assumes "lag r t" "position r \<le> int (length (concat (chunks r)))"
  shows "rel_sum (=) lag (switch_state c r) (switch_state c t)"
proof (cases "state r")
  case NORMAL
  with sync_case_NORMAL[OF assms, of c] lagD(7)[OF assms(1)] show ?thesis
    by (simp add: switch_state_def)
next
  case SEQUENCE_HEADING
  with lag_case_SEQUENCE_HEADING[OF assms(1), of c] lagD(7)[OF assms(1)] show ?thesis
    by (simp add: switch_state_def)
next
  case SEQUENCE_HR
  with lag_case_SEQUENCE_HR[OF assms, of c] lagD(7)[OF assms(1)] show ?thesis
    by (simp add: switch_state_def)
next
  case SEQUENCE_MODIFIER
  with lag_case_SEQUENCE_MODIFIER[OF assms(1), of c] lagD(7)[OF assms(1)] show ?thesis
    by (simp add: switch_state_def)
next
  case CODE
  with assms(1) lagD(7)[OF assms(1)] show ?thesis by (simp add: switch_state_def)
next
  case CODE_BLOCK
  with assms(1) lagD(7)[OF assms(1)] show ?thesis by (simp add: switch_state_def)
qed

lemma lag_line_start:
  assumes "lag r t"
  shows "lag (r\<lparr>line_start := b\<rparr>) (t\<lparr>line_start := b\<rparr>)"
    and "lag (r\<lparr>line_start := b, modifierStack := ms\<rparr>) (t\<lparr>line_start := b, modifierStack := ms\<rparr>)"
  using assms by (auto simp add: lag_def core_eq_def nonneg_def lock_inv_def pend_def)

lemma lag_position:
  assumes "lag r t"
  shows "lag (r\<lparr>position := position r + 1\<rparr>) (t\<lparr>position := position t + 1\<rparr>)"
  using assms by (auto simp add: lag_def core_eq_def nonneg_def lock_inv_def pend_def)

lemma sync_down:
  assumes "sync r t"
  shows "sync (down r) (down t)"
proof -
  note e = syncE[OF assms]
  note c = core_eqD[OF e(1)]
  have n: "0 \<le> start r" "0 \<le> position r" "0 \<le> num (uncorfinmed_start r)"
    using e(2) by (simp_all add: nonneg_def)
  show ?thesis
  proof (cases "length (stack r) > 1")
    case True
    then show ?thesis
      using c e(3,4,5) n merge_text_append_cong[OF e(6), of "[CloseBlock]"]
      by (intro syncI) (simp_all add: down_def core_eq_def nonneg_def lock_inv_def)
  next
    case False
    then show ?thesis using assms c by (simp add: down_def)
  qed
qed

lemma sync_heading_count:
  assumes "sync r t"
  shows "sync (r\<lparr>heading_count := n\<rparr>) (t\<lparr>heading_count := n\<rparr>)"
  using syncE[OF assms] core_eqD[OF syncE(1)[OF assms]]
  by (intro syncI) (simp_all add: core_eq_def nonneg_def lock_inv_def)

lemma lag_after_switch:
  assumes "lag r t" "position r \<le> int (length (concat (chunks r)))"
  shows "lag (after_switch c r) (after_switch c t)"
proof -
  note d = lagD[OF assms(1)]
  let ?r2 = "r\<lparr>line_start := True, modifierStack := []\<rparr>"
  let ?t2 = "t\<lparr>line_start := True, modifierStack := []\<rparr>"
  have l2: "lag ?r2 ?t2" by (rule lag_line_start(2)[OF assms(1)])
  have "position ?r2 \<le> int (length (concat (chunks ?r2)))" using assms(2) by simp
  note F = flush_both[OF l2 this]
  note D = sync_heading_count[OF sync_down[OF F], of 0]
  have nl: "lag (if heading_count ?r2 > 0 then (down (flush_default ?r2))\<lparr>heading_count := 0\<rparr> else ?r2)
                (if heading_count ?t2 > 0 then (down (flush_default ?t2))\<lparr>heading_count := 0\<rparr> else ?t2)"
    using sync_lag[OF D] l2 d(9) by simp
  have ot: "lag (if line_start r then r\<lparr>line_start := False\<rparr> else r)
                (if line_start t then t\<lparr>line_start := False\<rparr> else t)"
    using lag_line_start(1)[OF assms(1), of False] assms(1) d(8) by simp
  show ?thesis
  proof (cases "c = NEWLINE")
    case True
    from lag_position[OF nl] show ?thesis
      unfolding after_switch_def Let_def using True by simp
  next
    case False
    from lag_position[OF ot] show ?thesis
      unfolding after_switch_def Let_def using False by simp
  qed
qed

lemma lag_process_char:
  assumes "lag r t" "position r \<le> int (length (concat (chunks r)))"
  shows "rel_sum (=) lag (process_char c r) (process_char c t)"
proof -
  note sw = lag_switch_state[OF assms, of c]
  show ?thesis
  proof (cases "switch_state c r")
    case (Inl e)
    with sw show ?thesis by (cases "switch_state c t") (simp_all add: process_char_def)
  next
    case (Inr r1)
    with sw obtain t1 where t1: "switch_state c t = Inr t1" "lag r1 t1"
      by (cases "switch_state c t") simp_all
    from switch_state_frame[OF Inr] assms(2)
    have "position r1 \<le> int (length (concat (chunks r1)))" by simp
    from lag_after_switch[OF t1(2) this, of c] show ?thesis
      by (simp add: process_char_def Inr t1(1))
  qed
qed

lemma lag_write_loop:
  assumes "lag r t" "position r + int (length cs) \<le> int (length (concat (chunks r)))"
  shows "rel_sum (=) lag (write_loop cs r) (write_loop cs t)"
  using assms
proof (induction cs arbitrary: r t)
  case Nil
  then show ?case by simp
next
  case (Cons c cs)
  have b: "position r \<le> int (length (concat (chunks r)))" using Cons.prems(2) by simp
  note pc = lag_process_char[OF Cons.prems(1) b, of c]
  show ?case
  proof (cases "process_char c r")
    case (Inl e)
    with pc show ?thesis by (cases "process_char c t") simp_all
  next
    case (Inr r1)
    with pc obtain t1 where t1: "process_char c t = Inr t1" "lag r1 t1"
      by (cases "process_char c t") simp_all
    from process_char_frame[OF Inr] Cons.prems(2)
    have "position r1 + int (length cs) \<le> int (length (concat (chunks r1)))" by simp
    from Cons.IH[OF t1(2) this] show ?thesis by (simp add: Inr t1(1))
  qed
qed

subsection \<open>Whole streams\<close>

lemma lag_refl:
  assumes "nonneg r" "lock_inv r"
  shows "lag r r"
  using assms by (simp add: lag_def core_eq_def pend_def)

lemma settled_flush_right:
  assumes "lag r t" "position r \<le> int (length (concat (chunks r)))"
  shows "settled (flush_default t)"
  unfolding flush_default_unfold_right[OF assms]
  using lagD(1,6)[OF assms(1)] by (simp add: settled_def)

lemma lag_feed_all:
  assumes "lag r t" "settled t"
    "position r + int (length (concat fs)) \<le> int (length (concat (chunks r)))"
  shows "rel_sum (=) (\<lambda>r' t'. lag r' t' \<and> settled t') (write_loop (concat fs) r) (feed_all fs t)"
  using assms
proof (induction fs arbitrary: r t)
  case Nil
  then show ?case by simp
next
  case (Cons f fs)
  have b: "position r + int (length f) \<le> int (length (concat (chunks r)))"
    using Cons.prems(3) by simp
  note wl = lag_write_loop[OF Cons.prems(1) b]
  show ?case
  proof (cases "write_loop f r")
    case (Inl e)
    with wl show ?thesis
      by (cases "write_loop f t") (simp_all add: write_loop_append feed_def)
  next
    case (Inr r1)
    with wl obtain t1 where t1: "write_loop f t = Inr t1" "lag r1 t1"
      by (cases "write_loop f t") simp_all
    note fr = write_loop_frame[OF Inr]
    have b1: "position r1 \<le> int (length (concat (chunks r1)))" using fr b by simp
    let ?t2 = "if flush_on_write t1 then flush_default t1 else t1"
    have fw: "flush_on_write t1 = flush_on_write r1" by (rule lagD(13)[OF t1(2)])
    have l2: "lag r1 ?t2"
      using flush_right_only[OF t1(2) b1] t1(2) fw by simp
    have s2: "settled ?t2"
      using settled_flush_right[OF t1(2) b1] by (simp add: settled_def)
    have b2: "position r1 + int (length (concat fs)) \<le> int (length (concat (chunks r1)))"
      using fr Cons.prems(3) by simp
    from Cons.IH[OF l2 s2 b2] show ?thesis
      by (simp add: write_loop_append Inr feed_def t1(1))
  qed
qed

lemma sync_flushW_left:
  assumes "lag r t" "settled t" "position r \<le> int (length (concat (chunks r)))"
  shows "sync (if flush_on_write r then flush_default r else r) t"
proof (cases "flush_on_write r")
  case True
  note d = lagD[OF assms(1)]
  have "flush_default t = t"
    unfolding flush_default_unfold_right[OF assms(1,3)]
    using assms(2) d(1,6,13) True by (auto simp add: settled_def)
  with flush_both[OF assms(1,3)] True show ?thesis by simp
next
  case False
  with assms(1) show ?thesis by (auto simp add: sync_def lag_def)
qed

lemma sync_end_stream:
  assumes "sync r t"
  shows "merge_text (out (end_stream r)) = merge_text (out (end_stream t))"
proof -
  note e = syncE[OF assms]
  note c = core_eqD[OF e(1)]
  show ?thesis
  proof (cases "locked r")
    case True
    let ?X = "getSubstring (chunks r) (num (uncorfinmed_start r)) (position r)"
    have u: "uncorfinmed_start t = uncorfinmed_start r" by (rule e(4)[OF True])
    show ?thesis
      using True c u e(6) merge_text_append_cong[OF e(6)[symmetric], of "[AppendText (top_elem r) ?X]"]
      by (simp add: end_stream_def flush_def Let_def)
  next
    case False
    then show ?thesis using c e(6) by (simp add: end_stream_def)
  qed
qed

lemma lock_inv_clearState: "lock_inv (clearState p)" "nonneg (clearState p)"
  by (simp_all add: lock_inv_def nonneg_def clearState_def)

lemma feed_all_vs_feed:
  assumes "nonneg r" "lock_inv r" "position r = 0" "start r = 0" "chunks r = [concat fs]"
  shows "map_sum id merge_text (finish (feed_all fs r)) =
         map_sum id merge_text (finish (feed (concat fs) r))"
proof -
  have s0: "settled r" using assms(3,4) by (simp add: settled_def)
  have b0: "position r + int (length (concat fs)) \<le> int (length (concat (chunks r)))"
    using assms(3,5) by simp
  note L = lag_feed_all[OF lag_refl[OF assms(1,2)] s0 b0]
  show ?thesis
  proof (cases "write_loop (concat fs) r")
    case (Inl e)
    with L show ?thesis
      by (cases "feed_all fs r") (simp_all add: finish_def feed_def)
  next
    case (Inr r1)
    with L obtain t1 where t1: "feed_all fs r = Inr t1" "lag r1 t1" "settled t1"
      by (cases "feed_all fs r") simp_all
    from write_loop_frame[OF Inr] assms(3,5)
    have b1: "position r1 \<le> int (length (concat (chunks r1)))" by simp
    from sync_end_stream[OF sync_flushW_left[OF t1(2,3) b1]]
    show ?thesis by (simp add: finish_def feed_def Inr t1(1))
  qed
qed

text \<open>
  Claim C1, as the code has it. For every list of fragments, written in order to a parser
  fresh from \<open>clearState\<close> and followed by \<open>end()\<close>, and for their concatenation written as
  one fragment: either both runs throw, or both return and their final output command
  sequences are equal once adjacent text appends to the same element are merged. The
  structural commands and the text inside each element are the same, in the same order;
  only the places where text appends are cut can depend on the partition.
\<close>

theorem streaming_invariance_up_to_text_merging:
  "map_sum id (\<lambda>s. merge_text (out s)) (stream fragments (clearState p)) =
   map_sum id (\<lambda>s. merge_text (out s)) (stream [concat fragments] (clearState p))"
proof -
  let ?r = "rechunk [concat fragments] (clearState p)"
  have c: "chunks (clearState p) = []" "position (clearState p) = 0"
    by (simp_all add: clearState_def)
  have r: "nonneg ?r" "lock_inv ?r" "position ?r = 0" "start ?r = 0" "chunks ?r = [concat fragments]"
    using lock_inv_clearState[of p] by (simp_all add: nonneg_def lock_inv_def clearState_def)
  have m: "map_sum id (\<lambda>s. merge_text (out s)) x = map_sum id merge_text (map_sum id out x)"
    for x :: "error + parser"
    by (cases x) simp_all
  have 1: "map_sum id out (stream fragments (clearState p)) = finish (feed_all fragments ?r)"
    by (rule stream_as_feed_all[OF lock_inv_clearState(2) c])
  have 2: "map_sum id out (stream [concat fragments] (clearState p)) =
           finish (feed (concat fragments) ?r)"
    by (rule stream_single_as_feed[OF c(1)])
  show ?thesis
    unfolding m 1 2 by (rule feed_all_vs_feed[OF r])
qed

theorem streaming_invariance_up_to_text_merging_witness:
  "map_sum id (\<lambda>s. merge_text (out s))
      (stream [[HASH], [SPACE, 97], [98, NEWLINE, 99]] (clearState (new_LWMD True)))
     = Inr [OpenBlock Target (Heading 1), AppendText (Heading 1) [97, 98], CloseBlock,
            AppendText Target [NEWLINE, 99]] \<and>
   map_sum id (\<lambda>s. merge_text (out s))
      (stream [concat [[HASH], [SPACE, 97], [98, NEWLINE, 99]]] (clearState (new_LWMD True)))
     = Inr [OpenBlock Target (Heading 1), AppendText (Heading 1) [97, 98], CloseBlock,
            AppendText Target [NEWLINE, 99]] \<and>
   map_sum id out
      (stream [[HASH], [SPACE, 97], [98, NEWLINE, 99]] (clearState (new_LWMD True)))
     = Inr [OpenBlock Target (Heading 1), AppendText (Heading 1) [97],
            AppendText (Heading 1) [98], CloseBlock, AppendText Target [NEWLINE, 99]]"
proof -
  have e: "map_sum id (\<lambda>s. merge_text (out s))
      (stream [[HASH], [SPACE, 97], [98, NEWLINE, 99]] (clearState (new_LWMD True)))
     = Inr [OpenBlock Target (Heading 1), AppendText (Heading 1) [97, 98], CloseBlock,
            AppendText Target [NEWLINE, 99]]"
    by code_simp
  have o: "map_sum id out
      (stream [[HASH], [SPACE, 97], [98, NEWLINE, 99]] (clearState (new_LWMD True)))
     = Inr [OpenBlock Target (Heading 1), AppendText (Heading 1) [97],
            AppendText (Heading 1) [98], CloseBlock, AppendText Target [NEWLINE, 99]]"
    by code_simp
  from streaming_invariance_up_to_text_merging
         [of "[[HASH], [SPACE, 97], [98, NEWLINE, 99]]" "new_LWMD True"] e o
  show ?thesis by (simp only: simp_thms)
qed

text \<open>
  The claim fails on \<open>"ab"\<close> cut into \<open>"a"\<close> and \<open>"b"\<close>: with a flush after every write
  the stream appends two texts, the single fragment one.
\<close>

theorem streaming_invariance_counterexample:
  "map_sum id out (stream [[97], [98]] (new_LWMD True))
     = Inr [AppendText Target [97], AppendText Target [98]] \<and>
   map_sum id out (stream [[97, 98]] (new_LWMD True)) = Inr [AppendText Target [97, 98]]"
  by code_simp

section \<open>Heading lines\<close>

text \<open>
  Inside a line every flush appends to the top element the text between the confirmed
  cursor and the position, so the texts appended while a span of characters is processed
  are, concatenated, the characters between the confirmed cursor before and after.
\<close>

lemma flush_default_text:
  assumes "nonneg s" "\<not> locked s" "start s \<le> position s"
    "position s \<le> int (length (concat (chunks s)))"
  shows "\<exists>ps. out (flush_default s) = out s @ map (AppendText (top_elem s)) ps \<and>
           [] \<notin> set ps \<and>
           concat ps = js_slice (concat (chunks s)) (start s) (position s) \<and>
           start (flush_default s) = position s"
proof (cases "position s \<le> start s")
  case True
  with assms(3) have e: "start s = position s" by simp
  have "0 \<le> position s" using assms(1) by (simp add: nonneg_def)
  then have "js_slice (concat (chunks s)) (start s) (position s) = []"
    unfolding e by (simp add: js_slice_empty)
  moreover have "flush_default s = s"
    unfolding flush_default_unfold[OF assms(1,4)] using True by simp
  ultimately show ?thesis using e by (intro exI[of _ "[]"]) simp
next
  case False
  let ?t = "js_slice (concat (chunks s)) (start s) (position s)"
  have "0 \<le> start s" using assms(1) by (simp add: nonneg_def)
  then have ne: "?t \<noteq> []" using False assms(4) by (intro js_slice_nonempty) simp_all
  have "flush_default s = s\<lparr>out := out s @ [AppendText (top_elem s) ?t],
             start := position s, uncorfinmed_start := None\<rparr>"
    unfolding flush_default_unfold[OF assms(1,4)] using False assms(2) by simp
  then show ?thesis using ne by (intro exI[of _ "[?t]"]) simp
qed

lemma in_text_switch_state:
  assumes "in_text s" "position s \<le> int (length (concat (chunks s)))"
  shows "\<exists>s' ps. switch_state c s = Inr s' \<and>
           out s' = out s @ map (AppendText (top_elem s)) ps \<and> [] \<notin> set ps \<and>
           concat ps = js_slice (concat (chunks s)) (start s) (start s') \<and>
           start s \<le> start s' \<and> start s' \<le> position s \<and> position s' = position s \<and>
           same_block s s' \<and> \<not> line_start s' \<and> \<not> locked s' \<and>
           state s' \<noteq> SEQUENCE_HEADING \<and> state s' \<noteq> SEQUENCE_HR \<and>
           (state s' = SEQUENCE_MODIFIER \<longrightarrow> modifierStack s' \<noteq> [])"
proof -
  have i: "\<not> line_start s" "\<not> locked s" "state s \<noteq> SEQUENCE_HEADING" "state s \<noteq> SEQUENCE_HR"
    "state s = SEQUENCE_MODIFIER \<longrightarrow> modifierStack s \<noteq> []" "nonneg s" "start s \<le> position s"
    using assms(1) by (simp_all add: in_text_def)
  have z: "js_slice (concat (chunks s)) (start s) (start s) = []"
    using i(6) by (simp add: js_slice_empty nonneg_def)
  have same: "\<exists>ps. out s = out s @ map (AppendText (top_elem s)) ps \<and> [] \<notin> set ps \<and>
           concat ps = js_slice (concat (chunks s)) (start s) (start s)"
    using z by (intro exI[of _ "[]"]) simp
  from flush_default_text[OF i(6,2,7) assms(2)] obtain ps where
    ps: "out (flush_default s) = out s @ map (AppendText (top_elem s)) ps" "[] \<notin> set ps"
      "concat ps = js_slice (concat (chunks s)) (start s) (position s)"
      "start (flush_default s) = position s"
    by blast
  show ?thesis
  proof (cases "state s")
    case NORMAL
    show ?thesis
    proof (cases "isModifierChar c \<or> c = BACKTICK")
      case True
      then show ?thesis
        using NORMAL i ps
        by (intro exI[of _ "case_NORMAL c s"] exI[of _ ps])
           (auto simp add: switch_state_def case_NORMAL_def Let_def same_block_def)
    next
      case False
      then have "case_NORMAL c s = s" using i(1) by (simp add: case_NORMAL_def)
      then show ?thesis
        using NORMAL i z
        by (intro exI[of _ s] exI[of _ "[]"]) (simp add: switch_state_def same_block_def)
    qed
  next
    case SEQUENCE_HEADING
    with i show ?thesis by simp
  next
    case SEQUENCE_HR
    with i show ?thesis by simp
  next
    case SEQUENCE_MODIFIER
    with i have ms: "modifierStack s \<noteq> []" by simp
    show ?thesis
    proof (cases "isModifierChar c")
      case True
      let ?ms = "modifierStack s"
      let ?s1 = "s\<lparr>uncorfinmed_start := Some (num (uncorfinmed_start s) + 1)\<rparr>"
      let ?s2 = "if fst (snd (last ?ms)) = 1 \<and> c = fst (last ?ms)
                 then ?s1\<lparr>modifierStack :=
                        butlast ?ms @ [(fst (last ?ms), fst (snd (last ?ms)) + 1, snd (snd (last ?ms)))]\<rparr>
                 else ?s1\<lparr>modifierStack := ?ms @ [(c, 1, None)]\<rparr>"
      have "switch_state c s = Inr ?s2"
        using SEQUENCE_MODIFIER True ms
        by (simp add: switch_state_def case_SEQUENCE_MODIFIER_def Let_def)
      then show ?thesis
        using SEQUENCE_MODIFIER i z
        by (intro exI[of _ ?s2] exI[of _ "[]"]) (simp add: same_block_def)
    next
      case False
      let ?ms = "modifierStack s"
      let ?s2 = "s\<lparr>state := NORMAL, locked := False,
                  modifierStack := butlast ?ms @ [(fst (last ?ms), fst (snd (last ?ms)), Some (position s))]\<rparr>"
      have "switch_state c s = Inr ?s2"
        using SEQUENCE_MODIFIER False ms
        by (simp add: switch_state_def case_SEQUENCE_MODIFIER_def Let_def)
      then show ?thesis
        using i z
        by (intro exI[of _ ?s2] exI[of _ "[]"]) (simp add: same_block_def)
    qed
  next
    case CODE
    then show ?thesis
      using i z by (intro exI[of _ s] exI[of _ "[]"]) (simp add: switch_state_def same_block_def)
  next
    case CODE_BLOCK
    then show ?thesis
      using i z by (intro exI[of _ s] exI[of _ "[]"]) (simp add: switch_state_def same_block_def)
  qed
qed

lemma in_text_process_char:
  assumes "in_text s" "position s \<le> int (length (concat (chunks s)))" "c \<noteq> NEWLINE"
  shows "\<exists>s' ps. process_char c s = Inr s' \<and>
           out s' = out s @ map (AppendText (top_elem s)) ps \<and> [] \<notin> set ps \<and>
           concat ps = js_slice (concat (chunks s)) (start s) (start s') \<and>
           start s \<le> start s' \<and> position s' = position s + 1 \<and>
           same_block s s' \<and> in_text s'"
proof -
  from in_text_switch_state[OF assms(1,2), of c] obtain s1 ps where
    s1: "switch_state c s = Inr s1" "out s1 = out s @ map (AppendText (top_elem s)) ps"
      "[] \<notin> set ps" "concat ps = js_slice (concat (chunks s)) (start s) (start s1)"
      "start s \<le> start s1" "start s1 \<le> position s" "position s1 = position s"
      "same_block s s1" "\<not> line_start s1" "\<not> locked s1"
      "state s1 \<noteq> SEQUENCE_HEADING" "state s1 \<noteq> SEQUENCE_HR"
      "state s1 = SEQUENCE_MODIFIER \<longrightarrow> modifierStack s1 \<noteq> []"
    by blast
  let ?s' = "s1\<lparr>line_start := False, position := position s1 + 1\<rparr>"
  have p: "process_char c s = Inr ?s'"
    using s1(1) assms(3) by (simp add: process_char_def after_switch_not_newline)
  have "nonneg s" using assms(1) by (simp add: in_text_def)
  from nonneg_process_char[OF this p] have n: "nonneg ?s'" .
  show ?thesis
    using s1 n p
    by (intro exI[of _ ?s'] exI[of _ ps]) (simp add: same_block_def in_text_def)
qed

lemma in_text_write_loop:
  assumes "in_text s" "position s + int (length cs) \<le> int (length (concat (chunks s)))"
    "NEWLINE \<notin> set cs"
  shows "\<exists>s' ps. write_loop cs s = Inr s' \<and>
           out s' = out s @ map (AppendText (top_elem s)) ps \<and> [] \<notin> set ps \<and>
           concat ps = js_slice (concat (chunks s)) (start s) (start s') \<and>
           start s \<le> start s' \<and> position s' = position s + int (length cs) \<and>
           same_block s s' \<and> in_text s'"
  using assms
proof (induction cs arbitrary: s)
  case Nil
  have "js_slice (concat (chunks s)) (start s) (start s) = []"
    using Nil.prems(1) by (simp add: js_slice_empty nonneg_def in_text_def)
  then show ?case
    using Nil.prems(1) by (intro exI[of _ s] exI[of _ "[]"]) (simp add: same_block_def)
next
  case (Cons c cs)
  let ?T = "concat (chunks s)"
  have c: "c \<noteq> NEWLINE" "NEWLINE \<notin> set cs" using Cons.prems(3) by auto
  have b: "position s \<le> int (length ?T)" using Cons.prems(2) by simp
  from in_text_process_char[OF Cons.prems(1) b c(1)] obtain s1 ps1 where
    s1: "process_char c s = Inr s1" "out s1 = out s @ map (AppendText (top_elem s)) ps1"
      "[] \<notin> set ps1" "concat ps1 = js_slice ?T (start s) (start s1)"
      "start s \<le> start s1" "position s1 = position s + 1" "same_block s s1" "in_text s1"
    by blast
  have sb: "chunks s1 = chunks s" "top_elem s1 = top_elem s"
    using s1(7) by (simp_all add: same_block_def)
  have b1: "position s1 + int (length cs) \<le> int (length (concat (chunks s1)))"
    using Cons.prems(2) s1(6) sb by simp
  from Cons.IH[OF s1(8) b1 c(2)] obtain s' ps2 where
    s': "write_loop cs s1 = Inr s'" "out s' = out s1 @ map (AppendText (top_elem s1)) ps2"
      "[] \<notin> set ps2" "concat ps2 = js_slice (concat (chunks s1)) (start s1) (start s')"
      "start s1 \<le> start s'" "position s' = position s1 + int (length cs)"
      "same_block s1 s'" "in_text s'"
    by blast
  have "0 \<le> start s" using Cons.prems(1) by (simp add: in_text_def nonneg_def)
  moreover have "start s' \<le> int (length ?T)"
    using s'(8,6) s1(6) Cons.prems(2) by (simp add: in_text_def)
  ultimately have j: "js_slice ?T (start s) (start s1) @ js_slice ?T (start s1) (start s')
      = js_slice ?T (start s) (start s')"
    using s1(5) s'(5) by (intro js_slice_join) simp_all
  have "concat (ps1 @ ps2) = js_slice ?T (start s) (start s')"
    using s1(4) s'(4) j sb by simp
  moreover have "out s' = out s @ map (AppendText (top_elem s)) (ps1 @ ps2)"
    using s1(2) s'(2) sb by simp
  moreover have "[] \<notin> set (ps1 @ ps2)" using s1(3) s'(3) by simp
  moreover have "same_block s s'" using s1(7) s'(7) by (simp add: same_block_def)
  ultimately show ?case
    using s1(1,5,6) s'(1,5,6,8)
    by (intro exI[of _ s'] exI[of _ "ps1 @ ps2"]) simp
qed

lemma in_text_newline_closes:
  assumes "in_text s" "position s \<le> int (length (concat (chunks s)))"
    "0 < heading_count s" "1 < length (stack s)"
  shows "\<exists>s' ps. process_char NEWLINE s = Inr s' \<and>
           out s' = out s @ map (AppendText (top_elem s)) ps @ [CloseBlock] \<and> [] \<notin> set ps \<and>
           concat ps = js_slice (concat (chunks s)) (start s) (position s) \<and>
           start s' = position s \<and> position s' = position s + 1 \<and>
           stack s' = butlast (stack s) \<and> top_elem s' = last (butlast (stack s)) \<and>
           heading_count s' = 0 \<and> \<not> locked s' \<and> chunks s' = chunks s \<and>
           flush_on_write s' = flush_on_write s \<and> nonneg s'"
proof -
  let ?T = "concat (chunks s)"
  from in_text_switch_state[OF assms(1,2), of NEWLINE] obtain s1 ps1 where
    s1: "switch_state NEWLINE s = Inr s1" "out s1 = out s @ map (AppendText (top_elem s)) ps1"
      "[] \<notin> set ps1" "concat ps1 = js_slice ?T (start s) (start s1)"
      "start s \<le> start s1" "start s1 \<le> position s" "position s1 = position s"
      "same_block s s1" "\<not> line_start s1" "\<not> locked s1"
    by blast
  have sb: "stack s1 = stack s" "top_elem s1 = top_elem s" "heading_count s1 = heading_count s"
    "chunks s1 = chunks s" "flush_on_write s1 = flush_on_write s"
    using s1(8) by (simp_all add: same_block_def)
  have ns: "nonneg s" using assms(1) by (simp add: in_text_def)
  from nonneg_switch_state[OF ns s1(1)] have n1: "nonneg s1" .
  let ?s2 = "s1\<lparr>line_start := True, modifierStack := []\<rparr>"
  have n2: "nonneg ?s2" using n1 by (simp add: nonneg_def)
  have "\<exists>ps. out (flush_default ?s2) = out ?s2 @ map (AppendText (top_elem ?s2)) ps \<and>
           [] \<notin> set ps \<and>
           concat ps = js_slice (concat (chunks ?s2)) (start ?s2) (position ?s2) \<and>
           start (flush_default ?s2) = position ?s2"
    using n2 s1(6,7,10) assms(2) sb by (intro flush_default_text) simp_all
  then obtain ps2 where
    ps2: "out (flush_default ?s2) = out s1 @ map (AppendText (top_elem s)) ps2" "[] \<notin> set ps2"
      "concat ps2 = js_slice ?T (start s1) (position s)"
      "start (flush_default ?s2) = position s"
    using sb s1(7) by auto
  let ?s3 = "down (flush_default ?s2)"
  let ?s' = "?s3\<lparr>heading_count := 0, position := position ?s3 + 1\<rparr>"
  have p: "process_char NEWLINE s = Inr ?s'"
    using s1(1) assms(3) sb by (simp add: process_char_def after_switch_def Let_def)
  have dn: "out ?s3 = out (flush_default ?s2) @ [CloseBlock]"
    "stack ?s3 = butlast (stack s)" "top_elem ?s3 = last (butlast (stack s))"
    using assms(4) sb by (simp_all add: down_def)
  have "0 \<le> start s" using ns by (simp add: nonneg_def)
  then have j: "js_slice ?T (start s) (start s1) @ js_slice ?T (start s1) (position s)
      = js_slice ?T (start s) (position s)"
    using s1(5,6) assms(2) by (intro js_slice_join) simp_all
  have o: "out ?s' = out s @ map (AppendText (top_elem s)) (ps1 @ ps2) @ [CloseBlock]"
    using dn(1) ps2(1) s1(2) by simp
  have c: "concat (ps1 @ ps2) = js_slice ?T (start s) (position s)"
    using s1(4) ps2(3) j by simp
  have e: "[] \<notin> set (ps1 @ ps2)" using s1(3) ps2(2) by simp
  from nonneg_process_char[OF ns p] have n': "nonneg ?s'" .
  have r: "start ?s' = position s" "position ?s' = position s + 1"
    "stack ?s' = butlast (stack s)" "top_elem ?s' = last (butlast (stack s))"
    "heading_count ?s' = 0" "\<not> locked ?s'" "chunks ?s' = chunks s"
    "flush_on_write ?s' = flush_on_write s"
    using ps2(4) s1(7,10) dn(2,3) sb by simp_all
  show ?thesis
    using p o e c r n' by (intro exI[of _ ?s'] exI[of _ "ps1 @ ps2"]) simp
qed

lemma js_slice_middle:
  "js_slice (xs @ ys @ zs) (int (length xs)) (int (length xs) + int (length ys)) = ys"
proof -
  have "js_slice (xs @ ys @ zs) (int (length xs)) (int (length xs + length ys)) = ys"
    by (simp only: js_slice_nat) simp
  then show ?thesis by simp
qed

text \<open>The chunk store holds given characters from a position on.\<close>

lemma store_holds:
  assumes "0 \<le> p" "take (length L) (drop (nat p) T) = L" "L \<noteq> []"
  obtains X rest where "T = X @ L @ rest" "int (length X) = p"
proof -
  have d: "drop (nat p) T = L @ drop (length L) (drop (nat p) T)"
    using append_take_drop_id[of "length L" "drop (nat p) T"] assms(2) by simp
  have "drop (nat p) T \<noteq> []" using d assms(3) by auto
  then have "nat p < length T" by simp
  then have l: "int (length (take (nat p) T)) = p" using assms(1) by simp
  have "T = take (nat p) T @ L @ drop (length L) (drop (nat p) T)"
    by (simp only: d[symmetric] append_take_drop_id)
  with l that show ?thesis by blast
qed

lemma take_within: "m \<le> length xs \<Longrightarrow> take m (xs @ ys) = take m xs"
  by simp

text \<open>A heading line read from the chunk store.\<close>

lemma heading_line_loop:
  assumes "state s = NORMAL" "line_start s" "0 < k" "0 \<le> position s" "stack s \<noteq> []"
    "NEWLINE \<notin> set body"
    "take (length (replicate k HASH @ [SPACE] @ body @ [NEWLINE]))
       (drop (nat (position s)) (concat (chunks s))) =
     replicate k HASH @ [SPACE] @ body @ [NEWLINE]"
  shows "\<exists>s' ps. write_loop (replicate k HASH @ [SPACE] @ body @ [NEWLINE]) s = Inr s' \<and>
      out s' = out (flush_default s) @ [OpenBlock (top_elem s) (Heading (min 6 (int k)))] @
                 map (AppendText (Heading (min 6 (int k)))) ps @ [CloseBlock] \<and>
      [] \<notin> set ps \<and> concat ps = body \<and>
      stack s' = stack s \<and> top_elem s' = last (stack s) \<and> heading_count s' = 0 \<and>
      line_start s' \<and> \<not> locked s' \<and>
      position s' = position s + int (length (replicate k HASH @ [SPACE] @ body @ [NEWLINE]))"
proof -
  from \<open>0 < k\<close> obtain n where k: "k = Suc n" by (cases k) simp_all
  let ?H = "Heading (min 6 (int k))"
  let ?in = "replicate k HASH @ [SPACE] @ body @ [NEWLINE]"
  let ?p = "position s"
  let ?T = "concat (chunks s)"
  have "?in \<noteq> []" by simp
  from store_holds[OF assms(4,7) this] obtain X rest where
    X: "?T = X @ ?in @ rest" "int (length X) = ?p"
    by blast
  have T: "?T = (X @ replicate k HASH @ [SPACE]) @ body @ ([NEWLINE] @ rest)"
    using X(1) by simp
  have lT: "?p + int k + 1 + int (length body) + 1 \<le> int (length ?T)"
    unfolding X(1) using X(2) by simp
  let ?s1 = "flush_default s"
  let ?s2 = "?s1\<lparr>locked := True, state := SEQUENCE_HEADING,
            heading_count := 1 + int n,
            uncorfinmed_start := Some (?p + int n), line_start := False,
            position := ?p + 1 + int n\<rparr>"
  have "write_loop (replicate (Suc n) HASH) s = Inr ?s2"
    by (rule heading_run[OF assms(1,2)])
  then have run: "write_loop (replicate k HASH) s = Inr ?s2"
    unfolding k[symmetric] .
  let ?s3 = "?s2\<lparr>state := NORMAL, locked := False, uncorfinmed_start := None,
            start := ?p + int n + 2,
            out := out ?s1 @ [OpenBlock (top_elem s) ?H],
            stack := stack s @ [?H], top_elem := ?H, position := ?p + int n + 2\<rparr>"
  have sp: "process_char SPACE ?s2 = Inr ?s3"
    using heading_confirm_space[of ?s2 "?p + int n"] by (simp add: k)
  have it: "in_text ?s3"
    using assms(4) by (simp add: in_text_def nonneg_def)
  have b3: "position ?s3 + int (length body) \<le> int (length (concat (chunks ?s3)))"
    using lT by (simp add: k)
  from in_text_write_loop[OF it b3 assms(6)] obtain s4 ps1 where
    s4: "write_loop body ?s3 = Inr s4" "out s4 = out ?s3 @ map (AppendText (top_elem ?s3)) ps1"
      "[] \<notin> set ps1" "concat ps1 = js_slice (concat (chunks ?s3)) (start ?s3) (start s4)"
      "start ?s3 \<le> start s4" "position s4 = position ?s3 + int (length body)"
      "same_block ?s3 s4" "in_text s4"
    by blast
  have sb: "stack s4 = stack s @ [?H]" "top_elem s4 = ?H" "heading_count s4 = int k"
    "chunks s4 = chunks s" "flush_on_write s4 = flush_on_write s"
    using s4(7) by (simp_all add: same_block_def k)
  have pos4: "position s4 = ?p + int k + 1 + int (length body)" using s4(6) by (simp add: k)
  have b4: "position s4 \<le> int (length (concat (chunks s4)))"
    unfolding sb(4) pos4 using lT by simp
  have h4: "0 < heading_count s4" "1 < length (stack s4)"
    using sb assms(3,5) by (simp_all add: Suc_lessI)
  from in_text_newline_closes[OF s4(8) b4 h4] obtain s5 ps2 where
    s5: "process_char NEWLINE s4 = Inr s5"
      "out s5 = out s4 @ map (AppendText (top_elem s4)) ps2 @ [CloseBlock]" "[] \<notin> set ps2"
      "concat ps2 = js_slice (concat (chunks s4)) (start s4) (position s4)"
      "start s5 = position s4" "position s5 = position s4 + 1"
      "stack s5 = butlast (stack s4)" "top_elem s5 = last (butlast (stack s4))"
      "heading_count s5 = 0" "\<not> locked s5" "chunks s5 = chunks s4"
      "flush_on_write s5 = flush_on_write s4" "nonneg s5"
    by blast
  have loop: "write_loop ?in s = Inr s5"
    using run sp s4(1) s5(1)
    by (simp add: write_loop_append[of "replicate k HASH"] write_loop_append[of body])
  have st3: "start ?s3 = ?p + int k + 1" by (simp add: k)
  have c3: "concat (chunks ?s3) = ?T" by simp
  have "0 \<le> start ?s3" using assms(4) by simp
  moreover have "start s4 \<le> position s4" using s4(8) by (simp add: in_text_def)
  ultimately have "js_slice ?T (start ?s3) (start s4) @ js_slice ?T (start s4) (position s4)
      = js_slice ?T (start ?s3) (position s4)"
    using s4(5) b4 unfolding sb(4) by (intro js_slice_join) simp_all
  then have "concat (ps1 @ ps2) = js_slice ?T (start ?s3) (position s4)"
    using s4(4) s5(4) sb(4) c3 by simp
  also have "\<dots> = js_slice ((X @ replicate k HASH @ [SPACE]) @ body @ ([NEWLINE] @ rest))
        (int (length (X @ replicate k HASH @ [SPACE])))
        (int (length (X @ replicate k HASH @ [SPACE])) + int (length body))"
  proof -
    have ix: "?p + int k + 1 = int (length (X @ replicate k HASH @ [SPACE]))"
      using X(2) by simp
    have "js_slice ?T (start ?s3) (position s4) =
          js_slice ?T (?p + int k + 1) (?p + int k + 1 + int (length body))"
      by (simp only: st3 pos4)
    also have "\<dots> = js_slice ((X @ replicate k HASH @ [SPACE]) @ body @ ([NEWLINE] @ rest))
        (?p + int k + 1) (?p + int k + 1 + int (length body))"
      by (subst T) (rule refl)
    finally show ?thesis by (simp only: ix)
  qed
  also have "\<dots> = body" by (rule js_slice_middle)
  finally have c: "concat (ps1 @ ps2) = body" .
  have e: "[] \<notin> set (ps1 @ ps2)" using s4(3) s5(3) by simp
  have o5: "out s5 = out ?s1 @ [OpenBlock (top_elem s) ?H] @
                 map (AppendText ?H) (ps1 @ ps2) @ [CloseBlock]"
    using s5(2) s4(2) sb(2) by simp
  have r5: "stack s5 = stack s" "top_elem s5 = last (stack s)"
    using s5(7,8) sb(1) by simp_all
  have ls: "line_start s5" using process_char_newline[OF s5(1)] by simp
  have p5: "position s5 = ?p + int (length ?in)" using s5(6) pos4 by simp
  show ?thesis
    using loop o5 e c r5 s5(9,10) ls p5
    by (intro exI[of _ s5] exI[of _ "ps1 @ ps2"]) simp
qed

text \<open>A line whose run of heading markers is aborted, read from the chunk store.\<close>

lemma aborted_heading_line_loop:
  assumes "state s = NORMAL" "line_start s" "0 < k" "stack s \<noteq> []"
    "c \<noteq> HASH" "c \<noteq> SPACE" "c \<noteq> NEWLINE" "NEWLINE \<notin> set body"
    "\<not> locked s" "nonneg s" "start s \<le> position s"
    "take (length (replicate k HASH @ [c] @ body))
       (drop (nat (position s)) (concat (chunks s))) =
     replicate k HASH @ [c] @ body"
  shows "\<exists>s' ps. write_loop (replicate k HASH @ [c] @ body) s = Inr s' \<and>
      out s' = out (flush_default s) @ map (AppendText (top_elem s)) ps \<and> [] \<notin> set ps \<and>
      concat ps = take (nat (start s' - position s)) (replicate k HASH @ [c] @ body) \<and>
      position s \<le> start s' \<and> start s' \<le> position s' \<and>
      position s' = position s + int (length (replicate k HASH @ [c] @ body)) \<and>
      \<not> locked s' \<and> stack s' = stack s \<and> top_elem s' = top_elem s \<and> heading_count s' = 0"
proof -
  from \<open>0 < k\<close> obtain n where k: "k = Suc n" by (cases k) simp_all
  let ?in = "replicate k HASH @ [c] @ body"
  let ?p = "position s"
  let ?T = "concat (chunks s)"
  have p0: "0 \<le> ?p" using assms(10) by (simp add: nonneg_def)
  have "?in \<noteq> []" by simp
  from store_holds[OF p0 assms(12) this] obtain X rest where
    X: "?T = X @ ?in @ rest" "int (length X) = ?p"
    by blast
  have lT: "?p + int k + 1 + int (length body) \<le> int (length ?T)"
    unfolding X(1) using X(2) by simp
  have bp: "?p \<le> int (length ?T)" using lT by simp
  let ?s1 = "flush_default s"
  from flush_default_text[OF assms(10,9,11) bp] have st1: "start ?s1 = ?p" by blast
  let ?s2 = "?s1\<lparr>locked := True, state := SEQUENCE_HEADING,
            heading_count := 1 + int n,
            uncorfinmed_start := Some (?p + int n), line_start := False,
            position := ?p + 1 + int n\<rparr>"
  have "write_loop (replicate (Suc n) HASH) s = Inr ?s2"
    by (rule heading_run[OF assms(1,2)])
  then have run: "write_loop (replicate k HASH) s = Inr ?s2"
    unfolding k[symmetric] .
  let ?s3 = "?s2\<lparr>state := NORMAL, locked := False, heading_count := 0,
            uncorfinmed_start := None, line_start := False, position := position ?s2 + 1\<rparr>"
  have ab: "process_char c ?s2 = Inr ?s3"
    using assms(5,6,7) by (intro heading_abort) simp_all
  have it: "in_text ?s3"
    using p0 st1 by (simp add: in_text_def nonneg_def)
  have b3: "position ?s3 + int (length body) \<le> int (length (concat (chunks ?s3)))"
    using lT by (simp add: k)
  from in_text_write_loop[OF it b3 assms(8)] obtain s4 ps1 where
    s4: "write_loop body ?s3 = Inr s4" "out s4 = out ?s3 @ map (AppendText (top_elem ?s3)) ps1"
      "[] \<notin> set ps1" "concat ps1 = js_slice (concat (chunks ?s3)) (start ?s3) (start s4)"
      "start ?s3 \<le> start s4" "position s4 = position ?s3 + int (length body)"
      "same_block ?s3 s4" "in_text s4"
    by blast
  have sb: "stack s4 = stack s" "top_elem s4 = top_elem s" "heading_count s4 = 0"
    using s4(7) by (simp_all add: same_block_def)
  have pos4: "position s4 = ?p + int (length ?in)" using s4(6) by (simp add: k)
  have i4: "\<not> locked s4" "start s4 \<le> position s4"
    using s4(8) by (simp_all add: in_text_def)
  have loop: "write_loop ?in s = Inr s4"
    using run ab s4(1) by (simp add: write_loop_append[of "replicate k HASH"])
  have st3: "start ?s3 = ?p" using st1 by simp
  have ge: "?p \<le> start s4" using s4(5) st3 by simp
  have le: "nat (start s4 - ?p) \<le> length ?in" using i4(2) pos4 by simp
  have "concat ps1 = js_slice ?T ?p (start s4)" using s4(4) st3 by simp
  also have "\<dots> = take (nat (start s4) - nat ?p) (drop (nat ?p) ?T)"
    using p0 ge by (intro js_slice_nonneg) simp_all
  also have "drop (nat ?p) ?T = ?in @ rest"
  proof -
    have "nat ?p = length X" using X(2) by simp
    then show ?thesis unfolding X(1) by simp
  qed
  also have "nat (start s4) - nat ?p = nat (start s4 - ?p)" using p0 ge by simp
  also have "take (nat (start s4 - ?p)) (?in @ rest) = take (nat (start s4 - ?p)) ?in"
    by (rule take_within[OF le])
  finally have c: "concat ps1 = take (nat (start s4 - ?p)) ?in" .
  have o: "out s4 = out ?s1 @ map (AppendText (top_elem s)) ps1"
    using s4(2) by simp
  show ?thesis
    using loop o s4(3) c ge i4 pos4 sb
    by (intro exI[of _ s4] exI[of _ ps1]) simp
qed

text \<open>
  Claim C2. In the Normal state at a line start, a run of \<open>k > 0\<close> heading markers
  followed by one other character \<open>c\<close>: the loop returns in the Normal state with the lock
  cleared. If \<open>c\<close> is a space, a heading of level \<open>min 6 k\<close> has been opened on the
  former top element and is the new top; if \<open>c\<close> is a newline, that heading has been
  opened and closed again; on any other \<open>c\<close> nothing has been emitted beyond the flush made
  when the run began, the element stack is as before, \<open>heading_count\<close> is 0 and the
  confirmed cursor is where that flush left it, at its former value or at the start of the
  run, so that the run is in the text still to be flushed.

  For a whole line, its characters being those of the chunk store from the position on:
  \<open>k\<close> markers, a space, a text without newline and a newline open one heading of level
  \<open>min 6 k\<close> on the former top element, append to it non-empty texts whose concatenation
  is the text of the line, and close it, leaving the parser at the next line start. And
  \<open>k\<close> markers, a character that is no marker, space or newline, and a text without
  newline, met with the lock clear and the confirmed cursor not ahead of the position, emit
  after the first flush text appends to the top element only: their concatenation is the
  part of the line before the confirmed cursor, and the rest of the line lies between the
  confirmed cursor and the position, for the next flush.
\<close>

theorem heading_recognizer_confirms_iff_space_or_newline:
  assumes "state s = NORMAL" and "line_start s" and "0 < k" and "c \<noteq> HASH"
    and "0 \<le> position s" and "stack s \<noteq> []"
  shows "(\<exists>s'. write_loop (replicate k HASH @ [c]) s = Inr s' \<and>
      state s' = NORMAL \<and> \<not> locked s' \<and> position s' = position s + int k + 1 \<and>
      (if c = SPACE then
         out s' = out (flush_default s) @ [OpenBlock (top_elem s) (Heading (min 6 (int k)))] \<and>
         stack s' = stack s @ [Heading (min 6 (int k))] \<and>
         top_elem s' = Heading (min 6 (int k)) \<and>
         heading_count s' = int k \<and> start s' = position s'
       else if c = NEWLINE then
         out s' = out (flush_default s) @
                    [OpenBlock (top_elem s) (Heading (min 6 (int k))), CloseBlock] \<and>
         stack s' = stack s \<and> top_elem s' = last (stack s) \<and>
         heading_count s' = 0 \<and> start s' = position s'
       else
         out s' = out (flush_default s) \<and> stack s' = stack s \<and> top_elem s' = top_elem s \<and>
         heading_count s' = 0 \<and> start s' = start (flush_default s) \<and>
         (start s' = start s \<or> start s' = position s))) \<and>
    (NEWLINE \<notin> set body \<and>
     take (length (replicate k HASH @ [SPACE] @ body @ [NEWLINE]))
       (drop (nat (position s)) (concat (chunks s))) =
     replicate k HASH @ [SPACE] @ body @ [NEWLINE] \<longrightarrow>
       (\<exists>s' ps. write_loop (replicate k HASH @ [SPACE] @ body @ [NEWLINE]) s = Inr s' \<and>
          out s' = out (flush_default s) @ [OpenBlock (top_elem s) (Heading (min 6 (int k)))] @
                     map (AppendText (Heading (min 6 (int k)))) ps @ [CloseBlock] \<and>
          [] \<notin> set ps \<and> concat ps = body \<and>
          stack s' = stack s \<and> top_elem s' = last (stack s) \<and> heading_count s' = 0 \<and>
          line_start s' \<and> \<not> locked s' \<and>
          position s' =
            position s + int (length (replicate k HASH @ [SPACE] @ body @ [NEWLINE])))) \<and>
    (c \<noteq> SPACE \<and> c \<noteq> NEWLINE \<and> NEWLINE \<notin> set body \<and>
     \<not> locked s \<and> nonneg s \<and> start s \<le> position s \<and>
     take (length (replicate k HASH @ [c] @ body))
       (drop (nat (position s)) (concat (chunks s))) =
     replicate k HASH @ [c] @ body \<longrightarrow>
       (\<exists>s' ps. write_loop (replicate k HASH @ [c] @ body) s = Inr s' \<and>
          out s' = out (flush_default s) @ map (AppendText (top_elem s)) ps \<and> [] \<notin> set ps \<and>
          concat ps = take (nat (start s' - position s)) (replicate k HASH @ [c] @ body) \<and>
          position s \<le> start s' \<and> start s' \<le> position s' \<and>
          position s' = position s + int (length (replicate k HASH @ [c] @ body)) \<and>
          \<not> locked s' \<and> stack s' = stack s \<and> top_elem s' = top_elem s \<and>
          heading_count s' = 0))"
proof (intro conjI impI)
  show "\<exists>s'. write_loop (replicate k HASH @ [c]) s = Inr s' \<and>
      state s' = NORMAL \<and> \<not> locked s' \<and> position s' = position s + int k + 1 \<and>
      (if c = SPACE then
         out s' = out (flush_default s) @ [OpenBlock (top_elem s) (Heading (min 6 (int k)))] \<and>
         stack s' = stack s @ [Heading (min 6 (int k))] \<and>
         top_elem s' = Heading (min 6 (int k)) \<and>
         heading_count s' = int k \<and> start s' = position s'
       else if c = NEWLINE then
         out s' = out (flush_default s) @
                    [OpenBlock (top_elem s) (Heading (min 6 (int k))), CloseBlock] \<and>
         stack s' = stack s \<and> top_elem s' = last (stack s) \<and>
         heading_count s' = 0 \<and> start s' = position s'
       else
         out s' = out (flush_default s) \<and> stack s' = stack s \<and> top_elem s' = top_elem s \<and>
         heading_count s' = 0 \<and> start s' = start (flush_default s) \<and>
         (start s' = start s \<or> start s' = position s))"
    by (rule heading_run_then_char[OF assms])
next
  assume "NEWLINE \<notin> set body \<and>
     take (length (replicate k HASH @ [SPACE] @ body @ [NEWLINE]))
       (drop (nat (position s)) (concat (chunks s))) =
     replicate k HASH @ [SPACE] @ body @ [NEWLINE]"
  then show "\<exists>s' ps. write_loop (replicate k HASH @ [SPACE] @ body @ [NEWLINE]) s = Inr s' \<and>
          out s' = out (flush_default s) @ [OpenBlock (top_elem s) (Heading (min 6 (int k)))] @
                     map (AppendText (Heading (min 6 (int k)))) ps @ [CloseBlock] \<and>
          [] \<notin> set ps \<and> concat ps = body \<and>
          stack s' = stack s \<and> top_elem s' = last (stack s) \<and> heading_count s' = 0 \<and>
          line_start s' \<and> \<not> locked s' \<and>
          position s' =
            position s + int (length (replicate k HASH @ [SPACE] @ body @ [NEWLINE]))"
    using assms(1,2,3,5,6) by (intro heading_line_loop) simp_all
next
  assume "c \<noteq> SPACE \<and> c \<noteq> NEWLINE \<and> NEWLINE \<notin> set body \<and>
     \<not> locked s \<and> nonneg s \<and> start s \<le> position s \<and>
     take (length (replicate k HASH @ [c] @ body))
       (drop (nat (position s)) (concat (chunks s))) =
     replicate k HASH @ [c] @ body"
  then show "\<exists>s' ps. write_loop (replicate k HASH @ [c] @ body) s = Inr s' \<and>
          out s' = out (flush_default s) @ map (AppendText (top_elem s)) ps \<and> [] \<notin> set ps \<and>
          concat ps = take (nat (start s' - position s)) (replicate k HASH @ [c] @ body) \<and>
          position s \<le> start s' \<and> start s' \<le> position s' \<and>
          position s' = position s + int (length (replicate k HASH @ [c] @ body)) \<and>
          \<not> locked s' \<and> stack s' = stack s \<and> top_elem s' = top_elem s \<and>
          heading_count s' = 0"
    using assms(1,2,3,4,6) by (intro aborted_heading_line_loop) simp_all
qed

theorem heading_recognizer_confirms_iff_space_or_newline_witness:
  "(\<exists>s'. write_loop (replicate 7 HASH @ [SPACE])
         ((new_LWMD True)\<lparr>chunks := [[HASH, HASH, HASH, HASH, HASH, HASH, HASH, SPACE]]\<rparr>)
         = Inr s' \<and>
       state s' = NORMAL \<and> \<not> locked s' \<and> position s' = 8 \<and>
       out s' = [OpenBlock Target (Heading 6)] \<and> stack s' = [Target, Heading 6] \<and>
       top_elem s' = Heading 6 \<and> heading_count s' = 7 \<and> start s' = 8) \<and>
   (\<exists>s' ps. write_loop [HASH, SPACE, 98, 99, NEWLINE]
         ((new_LWMD True)\<lparr>chunks := [[HASH, SPACE, 98, 99, NEWLINE]]\<rparr>) = Inr s' \<and>
       out s' = OpenBlock Target (Heading 1) # map (AppendText (Heading 1)) ps @ [CloseBlock] \<and>
       [] \<notin> set ps \<and> concat ps = [98, 99] \<and>
       stack s' = [Target] \<and> top_elem s' = Target \<and> heading_count s' = 0 \<and>
       line_start s' \<and> \<not> locked s' \<and> position s' = 5) \<and>
   (\<exists>s'. write_loop [HASH, 97] ((new_LWMD True)\<lparr>chunks := [[HASH, 97, 98, 99]]\<rparr>) = Inr s' \<and>
       state s' = NORMAL \<and> \<not> locked s' \<and> position s' = 2 \<and>
       out s' = [] \<and> stack s' = [Target] \<and> top_elem s' = Target \<and>
       heading_count s' = 0 \<and> start s' = 0) \<and>
   (\<exists>s' ps. write_loop [HASH, 97, 98, 99]
         ((new_LWMD True)\<lparr>chunks := [[HASH, 97, 98, 99]]\<rparr>) = Inr s' \<and>
       out s' = map (AppendText Target) ps \<and> [] \<notin> set ps \<and>
       concat ps = take (nat (start s')) [HASH, 97, 98, 99] \<and>
       0 \<le> start s' \<and> start s' \<le> position s' \<and> position s' = 4 \<and>
       \<not> locked s' \<and> stack s' = [Target] \<and> top_elem s' = Target \<and> heading_count s' = 0) \<and>
   map_sum id out (stream [[HASH, SPACE, 97, 98, 99, NEWLINE]] (new_LWMD True))
     = Inr [OpenBlock Target (Heading 1), AppendText (Heading 1) [97, 98, 99], CloseBlock,
            AppendText Target [NEWLINE]] \<and>
   map_sum id out (stream [[HASH, 97, 98, 99, NEWLINE]] (new_LWMD True))
     = Inr [AppendText Target [HASH, 97, 98, 99, NEWLINE]]"
proof -
  let ?s = "(new_LWMD True)\<lparr>chunks := [[HASH, HASH, HASH, HASH, HASH, HASH, HASH, SPACE]]\<rparr>"
  let ?t = "(new_LWMD True)\<lparr>chunks := [[HASH, SPACE, 98, 99, NEWLINE]]\<rparr>"
  let ?u = "(new_LWMD True)\<lparr>chunks := [[HASH, 97, 98, 99]]\<rparr>"
  have 1: "state ?s = NORMAL" by code_simp
  have 2: "line_start ?s" by code_simp
  have 3: "0 < (7::nat)" by simp
  have 4: "SPACE \<noteq> HASH" by simp
  have 5: "0 \<le> position ?s" by code_simp
  have 6: "stack ?s \<noteq> []" by code_simp
  have f: "out (flush_default ?s) = []" "top_elem ?s = Target" "stack ?s = [Target]"
    "position ?s = 0"
    by code_simp+
  have t: "state ?t = NORMAL" "line_start ?t" "0 < (1::nat)" "(97::nat) \<noteq> HASH"
    "0 \<le> position ?t" "stack ?t \<noteq> []"
    by code_simp+
  have u: "state ?u = NORMAL" "line_start ?u" "0 < (1::nat)" "(97::nat) \<noteq> HASH"
    "0 \<le> position ?u" "stack ?u \<noteq> []"
    by code_simp+
  have h2: "NEWLINE \<notin> set [98, 99] \<and>
     take (length (replicate 1 HASH @ [SPACE] @ [98, 99] @ [NEWLINE]))
       (drop (nat (position ?t)) (concat (chunks ?t))) =
     replicate 1 HASH @ [SPACE] @ [98, 99] @ [NEWLINE]"
    by (simp add: new_LWMD_def clearState_def)
  have h3: "(97::nat) \<noteq> SPACE \<and> (97::nat) \<noteq> NEWLINE \<and> NEWLINE \<notin> set [98, 99] \<and>
     \<not> locked ?u \<and> nonneg ?u \<and> start ?u \<le> position ?u \<and>
     take (length (replicate 1 HASH @ [97] @ [98, 99]))
       (drop (nat (position ?u)) (concat (chunks ?u))) =
     replicate 1 HASH @ [97] @ [98, 99]"
    by (simp add: new_LWMD_def clearState_def nonneg_def)
  have g: "out (flush_default ?t) = []" "top_elem ?t = Target" "stack ?t = [Target]"
    "position ?t = 0"
    "out (flush_default ?u) = []" "top_elem ?u = Target" "stack ?u = [Target]"
    "position ?u = 0" "start (flush_default ?u) = 0" "start ?u = 0"
    by code_simp+
  note A = heading_recognizer_confirms_iff_space_or_newline[OF 1 2 3 4 5 6, THEN conjunct1]
  note B = heading_recognizer_confirms_iff_space_or_newline[OF t, where body = "[98, 99]",
      THEN conjunct2, THEN conjunct1, THEN mp, OF h2]
  note C = heading_recognizer_confirms_iff_space_or_newline[OF u, where body = "[98, 99]"]
  note C1 = C[THEN conjunct1]
  note C3 = C[THEN conjunct2, THEN conjunct2, THEN mp, OF h3]
  have w1: "\<exists>s'. write_loop (replicate 7 HASH @ [SPACE]) ?s = Inr s' \<and>
       state s' = NORMAL \<and> \<not> locked s' \<and> position s' = 8 \<and>
       out s' = [OpenBlock Target (Heading 6)] \<and> stack s' = [Target, Heading 6] \<and>
       top_elem s' = Heading 6 \<and> heading_count s' = 7 \<and> start s' = 8"
    using A by (auto simp add: f)
  have w2: "\<exists>s' ps. write_loop [HASH, SPACE, 98, 99, NEWLINE] ?t = Inr s' \<and>
       out s' = OpenBlock Target (Heading 1) # map (AppendText (Heading 1)) ps @ [CloseBlock] \<and>
       [] \<notin> set ps \<and> concat ps = [98, 99] \<and>
       stack s' = [Target] \<and> top_elem s' = Target \<and> heading_count s' = 0 \<and>
       line_start s' \<and> \<not> locked s' \<and> position s' = 5"
    using B by (auto simp add: g)
  have w3: "\<exists>s'. write_loop [HASH, 97] ?u = Inr s' \<and>
       state s' = NORMAL \<and> \<not> locked s' \<and> position s' = 2 \<and>
       out s' = [] \<and> stack s' = [Target] \<and> top_elem s' = Target \<and>
       heading_count s' = 0 \<and> start s' = 0"
    using C1 by (auto simp add: g)
  have w4: "\<exists>s' ps. write_loop [HASH, 97, 98, 99] ?u = Inr s' \<and>
       out s' = map (AppendText Target) ps \<and> [] \<notin> set ps \<and>
       concat ps = take (nat (start s')) [HASH, 97, 98, 99] \<and>
       0 \<le> start s' \<and> start s' \<le> position s' \<and> position s' = 4 \<and>
       \<not> locked s' \<and> stack s' = [Target] \<and> top_elem s' = Target \<and> heading_count s' = 0"
    using C3 by (auto simp add: g)
  have e1: "map_sum id out (stream [[HASH, SPACE, 97, 98, 99, NEWLINE]] (new_LWMD True))
     = Inr [OpenBlock Target (Heading 1), AppendText (Heading 1) [97, 98, 99], CloseBlock,
            AppendText Target [NEWLINE]]"
    by code_simp
  have e2: "map_sum id out (stream [[HASH, 97, 98, 99, NEWLINE]] (new_LWMD True))
     = Inr [AppendText Target [HASH, 97, 98, 99, NEWLINE]]"
    by code_simp
  from w1 w2 w3 w4 e1 e2 show ?thesis by (intro conjI)
qed

text \<open>
  Outside the Normal state the claim fails. A backtick met in the Normal state away from a
  line start leaves the parser in the inline-code state, for which the switch has no case:
  at the next line start nothing is done, and \<open>"# b"\<close> is left as text.
\<close>

theorem heading_recognizer_counterexample:
  "map_sum id out (stream [[97, BACKTICK, NEWLINE, HASH, SPACE, 98, NEWLINE]] (new_LWMD True))
     = Inr [AppendText Target [97],
            AppendText Target [BACKTICK, NEWLINE, HASH, SPACE, 98, NEWLINE]] \<and>
   map_sum id state (write_chunk [97, BACKTICK, NEWLINE] (new_LWMD True)) = Inr CODE \<and>
   map_sum id line_start (write_chunk [97, BACKTICK, NEWLINE] (new_LWMD True)) = Inr True"
  by code_simp

end
